theory Spec2Isabelle
  imports Complex_Main "HOL-Library.Signed_Division" "HOL-Library.Word"
begin

section \<open>Go values\<close>

text \<open>
  A \<open>time.Duration\<close> is a count of nanoseconds and Go's \<open>int\<close>, \<open>int64\<close> are 64-bit
  integers. They are modelled as \<open>int\<close>: the development assumes that no sum of counts
  and no difference of clock readings leaves the 64-bit range (a difference of readings
  would have to exceed 292 years, a count \<open>2^63\<close> additions). Go's \<open>/\<close> and \<open>%\<close> truncate
  towards zero; they are \<open>sdiv\<close> and \<open>smod\<close>, and a zero divisor panics.

  A \<open>float64\<close> is modelled as a \<open>real\<close>: rounding is not part of the model. The
  conversions, products and differences that the breaker computes are exact in
  \<open>float64\<close> for counts below \<open>2^51\<close>; its one division is rounded to nearest in Go.

  The read/write lock of the rolling window is not modelled: every operation is one
  atomic step of a sequential execution.
\<close>

type_synonym Duration = int

text \<open>
  The value of a panic: the string of \<open>NewRollingWindow\<close>, a run-time error, a value of
  the caller's (\<open>Fault\<close>), or nil. Under the Go versions before 1.21, which a go directive
  below 1.21 still selects, \<open>panic(nil)\<close> panics with the nil value, and \<open>recover()\<close>
  then returns nil.
\<close>

datatype panic =
    SizeMustBeGreaterThanZero
  | IntegerDivideByZero
  | IndexOutOfRange
  | MakesliceLenOutOfRange
  | Fault string
  | NilValue

text \<open>The result of a call: it returns a value or it panics with a value.\<close>

datatype 'a res = Ok 'a | Panic panic

text \<open>Go's error values; the nil error is \<open>None\<close> of \<open>error option\<close>.\<close>

datatype error =
    ErrServiceUnavailable
  | ErrTooLargeOffset
  | RedisNil
  | OtherError string

definition go_quo :: "int \<Rightarrow> int \<Rightarrow> int res" where
  "go_quo a b = (if b = 0 then Panic IntegerDivideByZero else Ok (a sdiv b))"

definition go_rem :: "int \<Rightarrow> int \<Rightarrow> int res" where
  "go_rem a b = (if b = 0 then Panic IntegerDivideByZero else Ok (a smod b))"

section \<open>timex: the relative clock\<close>

text \<open>
  \<open>time.Since(initTime)\<close> reads the process clock. Each reading is an input of the model:
  an operation takes one argument for every reading it makes.
\<close>

definition Now :: "Duration \<Rightarrow> Duration" where
  "Now reading = reading"

definition Since :: "Duration \<Rightarrow> Duration \<Rightarrow> Duration" where
  "Since reading d = reading - d"

section \<open>collection: Bucket, window and RollingWindow\<close>

record Bucket =
  Sum :: real
  Count :: int

definition add_b :: "Bucket \<Rightarrow> real \<Rightarrow> Bucket" where
  "add_b b v = b\<lparr>Sum := Sum b + v, Count := Count b + 1\<rparr>"

definition reset :: "Bucket \<Rightarrow> Bucket" where
  "reset b = b\<lparr>Sum := 0, Count := 0\<rparr>"

record window =
  buckets :: "Bucket list"
  size_w :: int

definition newWindow :: "int \<Rightarrow> window res" where
  "newWindow sz =
     (if sz < 0 then Panic MakesliceLenOutOfRange
      else Ok \<lparr>buckets = replicate (nat sz) \<lparr>Sum = 0, Count = 0\<rparr>, size_w = sz\<rparr>)"

text \<open>
  \<open>w.buckets[i]\<close> for a computed index: the index expression \<open>offset % w.size\<close> panics on
  a zero size, the slice access on an index out of range.
\<close>

definition bucket_index :: "window \<Rightarrow> int \<Rightarrow> nat res" where
  "bucket_index w off =
     (case go_rem off (size_w w) of
        Panic p \<Rightarrow> Panic p
      | Ok j \<Rightarrow> if 0 \<le> j \<and> j < int (length (buckets w)) then Ok (nat j)
                else Panic IndexOutOfRange)"

definition add_w :: "window \<Rightarrow> int \<Rightarrow> real \<Rightarrow> window \<times> unit res" where
  "add_w w off v =
     (case bucket_index w off of
        Panic p \<Rightarrow> (w, Panic p)
      | Ok j \<Rightarrow> (w\<lparr>buckets := (buckets w)[j := add_b (buckets w ! j) v]\<rparr>, Ok ()))"

definition resetBucket :: "window \<Rightarrow> int \<Rightarrow> window \<times> unit res" where
  "resetBucket w off =
     (case bucket_index w off of
        Panic p \<Rightarrow> (w, Panic p)
      | Ok j \<Rightarrow> (w\<lparr>buckets := (buckets w)[j := reset (buckets w ! j)]\<rparr>, Ok ()))"

text \<open>
  \<open>window.reduce\<close>: the callback receives a pointer to the bucket and the variables it
  has captured, here the state \<open>'s\<close>; it returns the bucket as it leaves it and the new
  captured state. The loop counter \<open>i\<close> is an argument.
\<close>

function reduce_from :: "window \<Rightarrow> int \<Rightarrow> int \<Rightarrow> (Bucket \<Rightarrow> 's \<Rightarrow> Bucket \<times> 's) \<Rightarrow> int \<Rightarrow> 's
    \<Rightarrow> window \<times> 's res" where
  "reduce_from w start count fn i s =
     (if i < count then
        (case bucket_index w (start + i) of
           Panic p \<Rightarrow> (w, Panic p)
         | Ok j \<Rightarrow>
             (case fn (buckets w ! j) s of
                (b', s') \<Rightarrow>
                  reduce_from (w\<lparr>buckets := (buckets w)[j := b']\<rparr>) start count fn (i + 1) s'))
      else (w, Ok s))"
  by pat_completeness auto
termination
  by (relation "measure (\<lambda>(w, start, count, fn, i, s). nat (count - i))") auto

definition reduce :: "window \<Rightarrow> int \<Rightarrow> int \<Rightarrow> (Bucket \<Rightarrow> 's \<Rightarrow> Bucket \<times> 's) \<Rightarrow> 's
    \<Rightarrow> window \<times> 's res" where
  "reduce w start count fn s = reduce_from w start count fn 0 s"

record RollingWindow =
  size_rw :: int
  win :: window
  interval :: Duration
  offset :: int
  ignoreCurrent :: bool
  lastTime :: Duration

text \<open>A \<open>RollingWindowOption\<close> is a function that updates the window under construction.\<close>

type_synonym RollingWindowOption = "RollingWindow \<Rightarrow> RollingWindow"

definition IgnoreCurrentBucket :: RollingWindowOption where
  "IgnoreCurrentBucket = (\<lambda>w. w\<lparr>ignoreCurrent := True\<rparr>)"

definition NewRollingWindow :: "int \<Rightarrow> Duration \<Rightarrow> RollingWindowOption list \<Rightarrow> Duration
    \<Rightarrow> RollingWindow res" where
  "NewRollingWindow sz iv opts reading =
     (if sz < 1 then Panic SizeMustBeGreaterThanZero
      else
        (case newWindow sz of
           Panic p \<Rightarrow> Panic p
         | Ok nw \<Rightarrow>
             Ok (fold (\<lambda>opt w. opt w) opts
                   \<lparr>size_rw = sz, win = nw, interval = iv, offset = 0,
                    ignoreCurrent = False, lastTime = Now reading\<rparr>)))"

definition span :: "RollingWindow \<Rightarrow> Duration \<Rightarrow> int res" where
  "span rw reading =
     (case go_quo (Since reading (lastTime rw)) (interval rw) of
        Panic p \<Rightarrow> Panic p
      | Ok off \<Rightarrow> if 0 \<le> off \<and> off < size_rw rw then Ok off else Ok (size_rw rw))"

text \<open>The reset loop of \<open>updateOffset\<close>, with its counter \<open>i\<close> as an argument.\<close>

function updateOffset_loop :: "RollingWindow \<Rightarrow> int \<Rightarrow> int \<Rightarrow> int \<Rightarrow> RollingWindow \<times> unit res" where
  "updateOffset_loop rw off sp i =
     (if i < sp then
        (case go_rem (off + i + 1) (size_rw rw) of
           Panic p \<Rightarrow> (rw, Panic p)
         | Ok j \<Rightarrow>
             (case resetBucket (win rw) j of
                (w', Panic p) \<Rightarrow> (rw\<lparr>win := w'\<rparr>, Panic p)
              | (w', Ok u) \<Rightarrow> updateOffset_loop (rw\<lparr>win := w'\<rparr>) off sp (i + 1)))
      else (rw, Ok ()))"
  by pat_completeness auto
termination
  by (relation "measure (\<lambda>(rw, off, sp, i). nat (sp - i))") auto

text \<open>
  \<open>updateOffset\<close> reads the clock twice: in \<open>span\<close> (the first reading) and in
  \<open>timex.Now()\<close> after the loop (the second).
\<close>

definition updateOffset :: "RollingWindow \<Rightarrow> Duration \<Rightarrow> Duration \<Rightarrow> RollingWindow \<times> unit res" where
  "updateOffset rw reading1 reading2 =
     (case span rw reading1 of
        Panic p \<Rightarrow> (rw, Panic p)
      | Ok sp \<Rightarrow>
          if sp \<le> 0 then (rw, Ok ())
          else
            (case updateOffset_loop rw (offset rw) sp 0 of
               (rw1, Panic p) \<Rightarrow> (rw1, Panic p)
             | (rw1, Ok u) \<Rightarrow>
                 (case go_rem (offset rw + sp) (size_rw rw1) of
                    Panic p \<Rightarrow> (rw1, Panic p)
                  | Ok off' \<Rightarrow>
                      (let rw2 = rw1\<lparr>offset := off'\<rparr>;
                           now = Now reading2
                       in case go_rem (now - lastTime rw2) (interval rw2) of
                            Panic p \<Rightarrow> (rw2, Panic p)
                          | Ok r \<Rightarrow> (rw2\<lparr>lastTime := now - r\<rparr>, Ok ())))))"

definition Add :: "RollingWindow \<Rightarrow> real \<Rightarrow> Duration \<Rightarrow> Duration \<Rightarrow> RollingWindow \<times> unit res" where
  "Add rw v reading1 reading2 =
     (case updateOffset rw reading1 reading2 of
        (rw1, Panic p) \<Rightarrow> (rw1, Panic p)
      | (rw1, Ok u) \<Rightarrow>
          (case add_w (win rw1) (offset rw1) v of
             (w', r) \<Rightarrow> (rw1\<lparr>win := w'\<rparr>, r)))"

definition Reduce :: "RollingWindow \<Rightarrow> Duration \<Rightarrow> (Bucket \<Rightarrow> 's \<Rightarrow> Bucket \<times> 's) \<Rightarrow> 's
    \<Rightarrow> RollingWindow \<times> 's res" where
  "Reduce rw reading fn s =
     (case span rw reading of
        Panic p \<Rightarrow> (rw, Panic p)
      | Ok sp \<Rightarrow>
          (let diff = (if sp = 0 \<and> ignoreCurrent rw then size_rw rw - 1 else size_rw rw - sp)
           in if diff > 0 then
                (case go_rem (offset rw + sp + 1) (size_rw rw) of
                   Panic p \<Rightarrow> (rw, Panic p)
                 | Ok off \<Rightarrow>
                     (case reduce (win rw) off diff fn s of
                        (w', r) \<Rightarrow> (rw\<lparr>win := w'\<rparr>, r)))
              else (rw, Ok s)))"

section \<open>breaker: the google breaker\<close>

definition Second :: Duration where
  "Second = 1000000000"

definition window_const :: Duration where
  "window_const = Second * 10"

definition buckets_const :: int where
  "buckets_const = 40"

definition k_const :: real where
  "k_const = 1.5"

definition protection :: int where
  "protection = 5"

text \<open>
  The field \<open>proba\<close> of the breaker is left out: \<open>mathx.Proba\<close> is not among the sources,
  and the outcome of \<open>TrueOnProba\<close> is an input of \<open>accept\<close>, a function of the
  probability it is asked about.
\<close>

record googleBreaker =
  k :: real
  stat :: RollingWindow

definition newGoogleBreaker :: "Duration \<Rightarrow> googleBreaker res" where
  "newGoogleBreaker reading =
     (case go_quo window_const buckets_const of
        Panic p \<Rightarrow> Panic p
      | Ok bucketDuration \<Rightarrow>
          (case NewRollingWindow buckets_const bucketDuration [] reading of
             Panic p \<Rightarrow> Panic p
           | Ok st \<Rightarrow> Ok \<lparr>k = k_const, stat = st\<rparr>))"

text \<open>\<open>int64(x)\<close> for a \<open>float64\<close> \<open>x\<close> drops the fraction.\<close>

definition int64_of_float64 :: "real \<Rightarrow> int" where
  "int64_of_float64 x = (if 0 \<le> x then \<lfloor>x\<rfloor> else \<lceil>x\<rceil>)"

definition history_fn :: "Bucket \<Rightarrow> int \<times> int \<Rightarrow> Bucket \<times> int \<times> int" where
  "history_fn b = (\<lambda>(accepts, total'). (b, accepts + int64_of_float64 (Sum b), total' + Count b))"

definition history :: "googleBreaker \<Rightarrow> Duration \<Rightarrow> googleBreaker \<times> (int \<times> int) res" where
  "history b reading =
     (case Reduce (stat b) reading history_fn (0, 0) of
        (st, r) \<Rightarrow> (b\<lparr>stat := st\<rparr>, r))"

text \<open>
  The value of the local variable \<open>dropRatio\<close> of \<open>accept\<close>, from the field \<open>k\<close> and
  the two results of \<open>history\<close>.
\<close>

definition dropRatio :: "real \<Rightarrow> int \<Rightarrow> int \<Rightarrow> real" where
  "dropRatio kf accepts total' =
     (let weightedAccepts = kf * real_of_int accepts
      in max 0 ((real_of_int (total' - protection) - weightedAccepts) / real_of_int (total' + 1)))"

definition accept :: "googleBreaker \<Rightarrow> Duration \<Rightarrow> (real \<Rightarrow> bool) \<Rightarrow> googleBreaker \<times> error option res" where
  "accept b reading TrueOnProba =
     (case history b reading of
        (b1, Panic p) \<Rightarrow> (b1, Panic p)
      | (b1, Ok (accepts, total')) \<Rightarrow>
          if dropRatio (k b1) accepts total' \<le> 0 then (b1, Ok None)
          else if TrueOnProba (dropRatio (k b1) accepts total') then (b1, Ok (Some ErrServiceUnavailable))
          else (b1, Ok None))"

definition markSuccess :: "googleBreaker \<Rightarrow> Duration \<Rightarrow> Duration \<Rightarrow> googleBreaker \<times> unit res" where
  "markSuccess b reading1 reading2 =
     (case Add (stat b) 1 reading1 reading2 of (st, r) \<Rightarrow> (b\<lparr>stat := st\<rparr>, r))"

definition markFailure :: "googleBreaker \<Rightarrow> Duration \<Rightarrow> Duration \<Rightarrow> googleBreaker \<times> unit res" where
  "markFailure b reading1 reading2 =
     (case Add (stat b) 0 reading1 reading2 of (st, r) \<Rightarrow> (b\<lparr>stat := st\<rparr>, r))"

text \<open>
  The request is given by what its call does: it returns an error (or nil), or it panics
  with a value, which may be nil (\<open>runtime.Goexit\<close> is not modelled).
  \<open>fallback\<close> may be nil; \<open>fallback\<close> and \<open>acceptable\<close>, when called, return. The trace
  lists the callbacks in the order \<open>doReq\<close> calls them.
\<close>

datatype request = Returns "error option" | Panics panic

datatype callee = CalledReq | CalledAcceptable | CalledFallback

text \<open>
  The statements of \<open>doReq\<close> after the deferred function is installed: the call of the
  request, its classification and the mark. The pair is the two clock readings of the mark.
\<close>

definition doReq_body :: "googleBreaker \<Rightarrow> request \<Rightarrow> (error option \<Rightarrow> bool) \<Rightarrow> Duration \<times> Duration
    \<Rightarrow> googleBreaker \<times> callee list \<times> error option res" where
  "doReq_body b req acceptable at_mark =
     (case req of
        Panics e \<Rightarrow> (b, [CalledReq], Panic e)
      | Returns err \<Rightarrow>
          if acceptable err then
            (case markSuccess b (fst at_mark) (snd at_mark) of
               (b1, Panic p) \<Rightarrow> (b1, [CalledReq, CalledAcceptable], Panic p)
             | (b1, Ok u) \<Rightarrow> (b1, [CalledReq, CalledAcceptable], Ok err))
          else
            (case markFailure b (fst at_mark) (snd at_mark) of
               (b1, Panic p) \<Rightarrow> (b1, [CalledReq, CalledAcceptable], Panic p)
             | (b1, Ok u) \<Rightarrow> (b1, [CalledReq, CalledAcceptable], Ok err)))"

text \<open>
  \<open>doReq\<close>: \<open>at_accept\<close> is the clock reading of \<open>accept\<close>, \<open>at_mark\<close> the two readings of
  the mark in the body, \<open>at_recover\<close> the two readings of the \<open>markFailure\<close> of the
  deferred function. The deferred function calls \<open>recover()\<close>; when the body has returned
  it gets nil and does nothing. When the body has panicked, the panic stops there and
  \<open>e\<close> is its value: if \<open>e != nil\<close> the function marks a failure and panics again with
  \<open>e\<close>; if \<open>e\<close> is nil it does nothing, and \<open>doReq\<close> returns the zero value of its
  unnamed result, the nil error.
\<close>

definition doReq :: "googleBreaker \<Rightarrow> request \<Rightarrow> (error \<Rightarrow> error option) option
    \<Rightarrow> (error option \<Rightarrow> bool) \<Rightarrow> (real \<Rightarrow> bool) \<Rightarrow> Duration \<Rightarrow> Duration \<times> Duration
    \<Rightarrow> Duration \<times> Duration \<Rightarrow> googleBreaker \<times> callee list \<times> error option res" where
  "doReq b req fallback acceptable TrueOnProba at_accept at_mark at_recover =
     (case accept b at_accept TrueOnProba of
        (b0, Panic p) \<Rightarrow> (b0, [], Panic p)
      | (b0, Ok (Some err)) \<Rightarrow>
          (case fallback of
             Some f \<Rightarrow> (b0, [CalledFallback], Ok (f err))
           | None \<Rightarrow> (b0, [], Ok (Some err)))
      | (b0, Ok None) \<Rightarrow>
          (case doReq_body b0 req acceptable at_mark of
             (b1, calls, Ok err) \<Rightarrow> (b1, calls, Ok err)
           | (b1, calls, Panic e) \<Rightarrow>
               if e \<noteq> NilValue then
                 (case markFailure b1 (fst at_recover) (snd at_recover) of
                    (b2, Panic p) \<Rightarrow> (b2, calls, Panic p)
                  | (b2, Ok u) \<Rightarrow> (b2, calls, Panic e))
               else (b1, calls, Ok None)))"

section \<open>bloom: the filter over a redis bit set\<close>

text \<open>
  Go's \<open>uint\<close> and \<open>uint64\<close> are 64-bit words, a \<open>byte\<close> an 8-bit word. \<open>hash.Hash\<close> is
  not among the sources: it is a parameter of \<open>getLocations\<close>. The redis store is outside
  the program: \<open>store.Eval\<close> is a parameter of \<open>check\<close> and \<open>set\<close>, and the two Lua
  scripts are named, not spelled out.
\<close>

type_synonym uint = "64 word"

definition maps :: nat where
  "maps = 14"

datatype script = setScript | testScript

datatype redis_reply = Int64Reply int | OtherReply

record redisBitSet =
  key :: string
  bits_rbs :: uint

record Filter =
  bits :: uint
  bitSet :: redisBitSet

definition newRedisBitSet :: "string \<Rightarrow> uint \<Rightarrow> redisBitSet" where
  "newRedisBitSet ky bts = \<lparr>key = ky, bits_rbs = bts\<rparr>"

definition New :: "string \<Rightarrow> uint \<Rightarrow> Filter" where
  "New ky bts = \<lparr>bits = bts, bitSet = newRedisBitSet ky bts\<rparr>"

text \<open>The loop of \<open>getLocations\<close>, with its counter \<open>i\<close> (below 15) as a natural number.\<close>

function getLocations_loop :: "Filter \<Rightarrow> (8 word list \<Rightarrow> uint) \<Rightarrow> 8 word list \<Rightarrow> nat \<Rightarrow> uint list
    \<Rightarrow> uint list res" where
  "getLocations_loop f Hash data i locations =
     (if i < maps then
        (let hashValue = Hash (data @ [of_nat i])
         in if bits f = 0 then Panic IntegerDivideByZero
            else getLocations_loop f Hash data (i + 1) (locations[i := hashValue mod bits f]))
      else Ok locations)"
  by pat_completeness auto
termination
  by (relation "measure (\<lambda>(f, Hash, data, i, locations). maps - i)") auto

definition getLocations :: "Filter \<Rightarrow> (8 word list \<Rightarrow> uint) \<Rightarrow> 8 word list \<Rightarrow> uint list res" where
  "getLocations f Hash data = getLocations_loop f Hash data 0 (replicate maps 0)"

text \<open>\<open>strconv.FormatUint(x, 10)\<close>: the decimal digits of \<open>x\<close>, most significant first.\<close>

fun decimal :: "nat \<Rightarrow> string" where
  "decimal n = (if n < 10 then [char_of (48 + n)] else decimal (n div 10) @ [char_of (48 + n mod 10)])"

definition FormatUint :: "uint \<Rightarrow> string" where
  "FormatUint x = decimal (unat x)"

fun buildOffsetArgs_loop :: "redisBitSet \<Rightarrow> uint list \<Rightarrow> string list \<Rightarrow> string list \<times> error option" where
  "buildOffsetArgs_loop r [] args = (args, None)"
| "buildOffsetArgs_loop r (off # offsets) args =
     (if off \<ge> bits_rbs r then ([], Some ErrTooLargeOffset)
      else buildOffsetArgs_loop r offsets (args @ [FormatUint off]))"

definition buildOffsetArgs :: "redisBitSet \<Rightarrow> uint list \<Rightarrow> string list \<times> error option" where
  "buildOffsetArgs r offsets = buildOffsetArgs_loop r offsets []"

type_synonym Eval = "script \<Rightarrow> string list \<Rightarrow> string list \<Rightarrow> redis_reply \<times> error option"

definition check :: "redisBitSet \<Rightarrow> Eval \<Rightarrow> uint list \<Rightarrow> bool \<times> error option" where
  "check r eval offsets =
     (case buildOffsetArgs r offsets of
        (args, Some err) \<Rightarrow> (False, Some err)
      | (args, None) \<Rightarrow>
          (case eval testScript [key r] args of
             (resp, Some err) \<Rightarrow> if err = RedisNil then (False, None) else (False, Some err)
           | (resp, None) \<Rightarrow>
               (case resp of
                  Int64Reply exists \<Rightarrow> (exists = 1, None)
                | OtherReply \<Rightarrow> (False, None))))"

definition set_rbs :: "redisBitSet \<Rightarrow> Eval \<Rightarrow> uint list \<Rightarrow> error option" where
  "set_rbs r eval offsets =
     (case buildOffsetArgs r offsets of
        (args, Some err) \<Rightarrow> Some err
      | (args, None) \<Rightarrow>
          (case eval setScript [key r] args of
             (resp, Some err) \<Rightarrow> if err = RedisNil then None else Some err
           | (resp, None) \<Rightarrow> None))"

definition Add_filter :: "Filter \<Rightarrow> (8 word list \<Rightarrow> uint) \<Rightarrow> Eval \<Rightarrow> 8 word list \<Rightarrow> error option res" where
  "Add_filter f Hash eval data =
     (case getLocations f Hash data of
        Panic p \<Rightarrow> Panic p
      | Ok locations \<Rightarrow> Ok (set_rbs (bitSet f) eval locations))"

definition Exists_filter :: "Filter \<Rightarrow> (8 word list \<Rightarrow> uint) \<Rightarrow> Eval \<Rightarrow> 8 word list
    \<Rightarrow> (bool \<times> error option) res" where
  "Exists_filter f Hash eval data =
     (case getLocations f Hash data of
        Panic p \<Rightarrow> Panic p
      | Ok locations \<Rightarrow>
          (case check (bitSet f) eval locations of
             (isSet, Some err) \<Rightarrow> Ok (False, Some err)
           | (isSet, None) \<Rightarrow> Ok (isSet, None)))"

section \<open>Well-formed and reachable states\<close>

text \<open>
  A window is well formed when it has as many buckets as its \<open>size\<close> says, at least one;
  a rolling window when, moreover, its \<open>size\<close> is the one of its window and its \<open>offset\<close>
  is the index of a bucket.
\<close>

definition wf_w :: "window \<Rightarrow> bool" where
  "wf_w w \<longleftrightarrow> 1 \<le> size_w w \<and> int (length (buckets w)) = size_w w"

definition wf_rw :: "RollingWindow \<Rightarrow> bool" where
  "wf_rw rw \<longleftrightarrow> wf_w (win rw) \<and> size_w (win rw) = size_rw rw
      \<and> 0 \<le> offset rw \<and> offset rw < size_rw rw"

text \<open>
  The invariant of a rolling window made at the clock reading \<open>t0\<close>: it is well formed,
  and \<open>lastTime\<close> is congruent to \<open>t0\<close> modulo \<open>interval\<close>.
\<close>

definition window_invariant :: "Duration \<Rightarrow> RollingWindow \<Rightarrow> bool" where
  "window_invariant t0 rw \<longleftrightarrow> wf_rw rw \<and> lastTime rw mod interval rw = t0 mod interval rw"

text \<open>
  The states of a breaker: \<open>newGoogleBreaker\<close> makes one, and the operations of the
  breaker lead from one to the next, at any clock readings and whatever the request, the
  callbacks and the probability gate do.
\<close>

inductive reachable :: "googleBreaker \<Rightarrow> bool" where
  reachable_new: "newGoogleBreaker reading = Ok b \<Longrightarrow> reachable b"
| reachable_markSuccess: "reachable b \<Longrightarrow> markSuccess b reading1 reading2 = (b', r) \<Longrightarrow> reachable b'"
| reachable_markFailure: "reachable b \<Longrightarrow> markFailure b reading1 reading2 = (b', r) \<Longrightarrow> reachable b'"
| reachable_accept: "reachable b \<Longrightarrow> accept b reading TrueOnProba = (b', ra) \<Longrightarrow> reachable b'"
| reachable_doReq:
    "reachable b \<Longrightarrow>
     doReq b req fallback acceptable TrueOnProba at_accept at_mark at_recover = (b', calls, rd) \<Longrightarrow>
     reachable b'"

text \<open>What holds of every reachable breaker (lemma \<open>reachable_breaker_inv\<close>).\<close>

definition breaker_inv :: "googleBreaker \<Rightarrow> bool" where
  "breaker_inv b \<longleftrightarrow> k b = k_const \<and> wf_rw (stat b) \<and> size_rw (stat b) = buckets_const
      \<and> interval (stat b) = 250000000 \<and> \<not> ignoreCurrent (stat b)
      \<and> (\<forall>bk\<in>set (buckets (win (stat b))). 0 \<le> Sum bk \<and> 0 \<le> Count bk)"

text \<open>The breaker that \<open>newGoogleBreaker\<close> returns at the clock reading 0.\<close>

definition fresh_breaker :: googleBreaker where
  "fresh_breaker = \<lparr>k = k_const, stat = \<lparr>size_rw = 40,
       win = \<lparr>buckets = replicate 40 \<lparr>Sum = 0, Count = 0\<rparr>, size_w = 40\<rparr>,
       interval = 250000000, offset = 0, ignoreCurrent = False, lastTime = 0\<rparr>\<rparr>"

text \<open>
  A callback for \<open>Reduce\<close> that writes through the pointer it is given: it adds the count
  of the bucket to the total it has captured and resets the bucket.
\<close>

definition drain :: "Bucket \<Rightarrow> int \<Rightarrow> Bucket \<times> int" where
  "drain bk total' = (reset bk, total' + Count bk)"

declare updateOffset_loop.simps [simp del] reduce_from.simps [simp del]
  getLocations_loop.simps [simp del] decimal.simps [simp del]

section \<open>The rolling window\<close>

lemma bucket_index_wf:
  assumes "wf_w w" "0 \<le> off"
  shows "bucket_index w off = Ok (nat (off mod size_w w))"
  using assms
  by (simp add: bucket_index_def go_rem_def wf_w_def smod_mod_positive)

lemma resetBucket_wf:
  assumes "wf_w w" "0 \<le> off"
  shows "resetBucket w off = (w\<lparr>buckets := (buckets w)[nat (off mod size_w w) := reset (buckets w ! nat (off mod size_w w))]\<rparr>, Ok ())"
  using assms by (simp add: resetBucket_def bucket_index_wf)

lemma reset_reset [simp]: "reset (reset b) = reset b"
  by (simp add: reset_def)

lemma updateOffset_loop_wf:
  assumes "wf_rw rw" "0 \<le> off" "0 \<le> i"
  shows "\<exists>bs. updateOffset_loop rw off sp i = (rw\<lparr>win := (win rw)\<lparr>buckets := bs\<rparr>\<rparr>, Ok ())
           \<and> length bs = length (buckets (win rw))
           \<and> (\<forall>j<length bs. bs ! j =
                 (if \<exists>m. i \<le> m \<and> m < sp \<and> int j = (off + m + 1) mod size_rw rw
                  then reset (buckets (win rw) ! j) else buckets (win rw) ! j))"
  using assms
proof (induction rw off sp i rule: updateOffset_loop.induct)
  case (1 rw off sp i)
  show ?case
  proof (cases "i < sp")
    case False
    then show ?thesis
      by (subst updateOffset_loop.simps) (auto intro!: exI [of _ "buckets (win rw)"])
  next
    case True
    let ?n = "size_rw rw"
    let ?bs = "buckets (win rw)"
    let ?j = "(off + i + 1) mod ?n"
    let ?jn = "nat ?j"
    let ?w = "(win rw)\<lparr>buckets := ?bs[?jn := reset (?bs ! ?jn)]\<rparr>"
    define rw1 where "rw1 = rw\<lparr>win := ?w\<rparr>"
    from "1.prems" have n: "1 \<le> ?n" "size_w (win rw) = ?n" "wf_w (win rw)"
      "int (length ?bs) = ?n"
      by (simp_all add: wf_rw_def wf_w_def)
    have rem: "go_rem (off + i + 1) ?n = Ok ?j"
      using n "1.prems" by (simp add: go_rem_def smod_mod_positive)
    have j0: "0 \<le> ?j" using n by simp
    have rb: "resetBucket (win rw) ?j = (?w, Ok ())"
      using resetBucket_wf [OF n(3) j0] n by simp
    have wf': "wf_rw (rw\<lparr>win := ?w\<rparr>)"
      using "1.prems" by (simp add: wf_rw_def wf_w_def)
    have i1: "0 \<le> i + 1" using "1.prems" by simp
    have "\<exists>bs. updateOffset_loop rw1 off sp (i + 1)
        = (rw1\<lparr>win := (win rw1)\<lparr>buckets := bs\<rparr>\<rparr>, Ok ()) \<and> length bs = length (buckets (win rw1))
      \<and> (\<forall>j<length bs. bs ! j =
                 (if \<exists>m. i + 1 \<le> m \<and> m < sp \<and> int j = (off + m + 1) mod size_rw rw1
                  then reset (buckets (win rw1) ! j) else buckets (win rw1) ! j))"
      unfolding rw1_def
      by (rule "1.IH" [OF True rem rb [symmetric] refl wf' "1.prems"(2) i1])
    then obtain bs where bs: "updateOffset_loop rw1 off sp (i + 1)
        = (rw1\<lparr>win := (win rw1)\<lparr>buckets := bs\<rparr>\<rparr>, Ok ())" "length bs = length (buckets (win rw1))"
      and c: "\<And>j. j < length bs \<Longrightarrow> bs ! j =
                 (if \<exists>m. i + 1 \<le> m \<and> m < sp \<and> int j = (off + m + 1) mod size_rw rw1
                  then reset (buckets (win rw1) ! j) else buckets (win rw1) ! j)"
      by blast
    have r1: "rw1\<lparr>win := (win rw1)\<lparr>buckets := bs\<rparr>\<rparr> = rw\<lparr>win := (win rw)\<lparr>buckets := bs\<rparr>\<rparr>"
      "size_rw rw1 = ?n" "buckets (win rw1) = ?bs[?jn := reset (?bs ! ?jn)]"
      by (simp_all add: rw1_def)
    have len: "length bs = length ?bs" using bs(2) r1(3) by simp
    have "updateOffset_loop rw off sp i = updateOffset_loop rw1 off sp (i + 1)"
      by (subst updateOffset_loop.simps) (simp add: True rem rb rw1_def)
    then have eq: "updateOffset_loop rw off sp i = (rw\<lparr>win := (win rw)\<lparr>buckets := bs\<rparr>\<rparr>, Ok ())"
      using bs(1) r1(1) by simp
    have jn: "int ?jn = ?j" using n by simp
    have "bs ! j = (if \<exists>m. i \<le> m \<and> m < sp \<and> int j = (off + m + 1) mod ?n
                  then reset (?bs ! j) else ?bs ! j)" if j: "j < length bs" for j
    proof (cases "j = ?jn")
      case jk: True
      have ex: "\<exists>m. i \<le> m \<and> m < sp \<and> int j = (off + m + 1) mod ?n"
        using True jn jk by (intro exI [of _ i]) simp
      have "buckets (win rw1) ! j = reset (?bs ! j)"
        using jk j len by (simp add: r1(3))
      with c [OF j] have "bs ! j = reset (?bs ! j)" by (simp split: if_splits)
      with ex show ?thesis by simp
    next
      case jk: False
      then have nk: "int j \<noteq> (off + i + 1) mod ?n" using jn by linarith
      have iff: "(\<exists>m. i \<le> m \<and> m < sp \<and> int j = (off + m + 1) mod ?n)
          \<longleftrightarrow> (\<exists>m. i + 1 \<le> m \<and> m < sp \<and> int j = (off + m + 1) mod ?n)"
      proof
        assume "\<exists>m. i \<le> m \<and> m < sp \<and> int j = (off + m + 1) mod ?n"
        then obtain m where m: "i \<le> m" "m < sp" "int j = (off + m + 1) mod ?n" by blast
        with nk have "m \<noteq> i" by auto
        with m show "\<exists>m. i + 1 \<le> m \<and> m < sp \<and> int j = (off + m + 1) mod ?n"
          by (intro exI [of _ m]) simp
      next
        assume "\<exists>m. i + 1 \<le> m \<and> m < sp \<and> int j = (off + m + 1) mod ?n"
        then obtain m where m: "i + 1 \<le> m" "m < sp" "int j = (off + m + 1) mod ?n" by blast
        then show "\<exists>m. i \<le> m \<and> m < sp \<and> int j = (off + m + 1) mod ?n"
          by (intro exI [of _ m]) simp
      qed
      have "buckets (win rw1) ! j = ?bs ! j"
        using jk by (simp add: r1(3))
      with c [OF j] show ?thesis unfolding iff r1(2) by auto
    qed
    with eq len show ?thesis by blast
  qed
qed

lemma span_cases:
  assumes "interval rw \<noteq> 0"
  obtains sp where "span rw reading = Ok sp"
    "sp = (if 0 \<le> Since reading (lastTime rw) sdiv interval rw
              \<and> Since reading (lastTime rw) sdiv interval rw < size_rw rw
           then Since reading (lastTime rw) sdiv interval rw else size_rw rw)"
  using assms by (simp add: span_def go_quo_def)

lemma span_range:
  assumes "span rw reading = Ok sp" "1 \<le> size_rw rw"
  shows "0 \<le> sp \<and> sp \<le> size_rw rw"
  using assms by (auto simp: span_def go_quo_def split: if_splits)

lemma updateOffset_wf:
  assumes wf: "wf_rw rw" and iv: "interval rw \<noteq> 0" and sp: "span rw reading1 = Ok sp"
  shows "\<exists>bs. updateOffset rw reading1 reading2 =
            ((if sp = 0 then rw
              else rw\<lparr>win := (win rw)\<lparr>buckets := bs\<rparr>,
                      offset := (offset rw + sp) mod size_rw rw,
                      lastTime := reading2 - (reading2 - lastTime rw) smod interval rw\<rparr>), Ok ())
          \<and> length bs = length (buckets (win rw))
          \<and> (\<forall>j<length bs. bs ! j =
                 (if \<exists>m. 0 \<le> m \<and> m < sp \<and> int j = (offset rw + m + 1) mod size_rw rw
                  then reset (buckets (win rw) ! j) else buckets (win rw) ! j))"
proof -
  from wf have n: "1 \<le> size_rw rw" "0 \<le> offset rw"
    by (simp_all add: wf_rw_def wf_w_def)
  from span_range [OF sp n(1)] have r: "0 \<le> sp" "sp \<le> size_rw rw" by simp_all
  obtain bs where bs: "updateOffset_loop rw (offset rw) sp 0 = (rw\<lparr>win := (win rw)\<lparr>buckets := bs\<rparr>\<rparr>, Ok ())"
      "length bs = length (buckets (win rw))"
      "\<forall>j<length bs. bs ! j =
                 (if \<exists>m. 0 \<le> m \<and> m < sp \<and> int j = (offset rw + m + 1) mod size_rw rw
                  then reset (buckets (win rw) ! j) else buckets (win rw) ! j)"
    using updateOffset_loop_wf [OF wf n(2) order_refl, of sp] by blast
  show ?thesis
  proof (cases "sp = 0")
    case True
    have "updateOffset rw reading1 reading2 = (rw, Ok ())"
      by (simp add: updateOffset_def sp True)
    moreover have "\<forall>j<length (buckets (win rw)). buckets (win rw) ! j =
                 (if \<exists>m. 0 \<le> m \<and> m < sp \<and> int j = (offset rw + m + 1) mod size_rw rw
                  then reset (buckets (win rw) ! j) else buckets (win rw) ! j)"
      using True by auto
    ultimately show ?thesis using True by (intro exI [of _ "buckets (win rw)"]) simp
  next
    case False
    with r have pos: "\<not> sp \<le> 0" by simp
    have rem: "go_rem (offset rw + sp) (size_rw rw) = Ok ((offset rw + sp) mod size_rw rw)"
      using n r by (simp add: go_rem_def smod_mod_positive)
    have rem2: "go_rem (reading2 - lastTime rw) (interval rw)
        = Ok ((reading2 - lastTime rw) smod interval rw)"
      using iv by (simp add: go_rem_def)
    have "updateOffset rw reading1 reading2 =
            (rw\<lparr>win := (win rw)\<lparr>buckets := bs\<rparr>,
                      offset := (offset rw + sp) mod size_rw rw,
                      lastTime := reading2 - (reading2 - lastTime rw) smod interval rw\<rparr>, Ok ())"
      using pos by (simp add: updateOffset_def sp bs(1) rem rem2 Now_def)
    with False bs(2,3) show ?thesis by (intro exI [of _ bs]) simp
  qed
qed

lemma smod_align: "(b - (b - a) smod c) mod c = a mod (c::int)"
proof -
  have "b - (b - a) smod c = a + c * ((b - a) sdiv c)"
    using minus_mult_sdiv_eq_smod [of "b - a" c] by simp
  then show ?thesis by simp
qed

lemma updateOffset_invariant:
  assumes "window_invariant t0 rw"
  shows "window_invariant t0 (fst (updateOffset rw reading1 reading2))
    \<and> size_rw (fst (updateOffset rw reading1 reading2)) = size_rw rw
    \<and> interval (fst (updateOffset rw reading1 reading2)) = interval rw
    \<and> ignoreCurrent (fst (updateOffset rw reading1 reading2)) = ignoreCurrent rw
    \<and> snd (updateOffset rw reading1 reading2)
         = (if interval rw = 0 then Panic IntegerDivideByZero else Ok ())"
proof (cases "interval rw = 0")
  case True
  then have "updateOffset rw reading1 reading2 = (rw, Panic IntegerDivideByZero)"
    by (simp add: updateOffset_def span_def go_quo_def)
  with assms True show ?thesis by simp
next
  case False
  from assms have wf: "wf_rw rw" and al: "lastTime rw mod interval rw = t0 mod interval rw"
    by (simp_all add: window_invariant_def)
  obtain sp where sp: "span rw reading1 = Ok sp"
    using span_cases [OF False] by blast
  from wf have n: "1 \<le> size_rw rw" by (simp add: wf_rw_def wf_w_def)
  from span_range [OF sp n] have r: "0 \<le> sp" by simp
  from updateOffset_wf [OF wf False sp, of reading2]
  obtain bs where u: "updateOffset rw reading1 reading2 =
            ((if sp = 0 then rw
              else rw\<lparr>win := (win rw)\<lparr>buckets := bs\<rparr>,
                      offset := (offset rw + sp) mod size_rw rw,
                      lastTime := reading2 - (reading2 - lastTime rw) smod interval rw\<rparr>), Ok ())"
    and len: "length bs = length (buckets (win rw))"
    by blast
  show ?thesis
  proof (cases "sp = 0")
    case True
    with u assms False show ?thesis by simp
  next
    case sp0: False
    have "wf_rw (rw\<lparr>win := (win rw)\<lparr>buckets := bs\<rparr>,
                      offset := (offset rw + sp) mod size_rw rw,
                      lastTime := reading2 - (reading2 - lastTime rw) smod interval rw\<rparr>)"
      using wf len n by (simp add: wf_rw_def wf_w_def)
    then show ?thesis
      using u sp0 False al by (simp add: window_invariant_def smod_align)
  qed
qed

lemma add_w_wf:
  assumes "wf_w w" "0 \<le> off" "off < size_w w"
  shows "add_w w off v = (w\<lparr>buckets := (buckets w)[nat off := add_b (buckets w ! nat off) v]\<rparr>, Ok ())"
  using assms by (simp add: add_w_def bucket_index_wf)

lemma Add_invariant:
  assumes "window_invariant t0 rw"
  shows "window_invariant t0 (fst (Add rw v reading1 reading2))
    \<and> size_rw (fst (Add rw v reading1 reading2)) = size_rw rw
    \<and> interval (fst (Add rw v reading1 reading2)) = interval rw
    \<and> ignoreCurrent (fst (Add rw v reading1 reading2)) = ignoreCurrent rw
    \<and> snd (Add rw v reading1 reading2)
         = (if interval rw = 0 then Panic IntegerDivideByZero else Ok ())"
proof -
  obtain rw1 r1 where u: "updateOffset rw reading1 reading2 = (rw1, r1)"
    by (cases "updateOffset rw reading1 reading2")
  from updateOffset_invariant [OF assms, of reading1 reading2] u
  have i1: "window_invariant t0 rw1" "size_rw rw1 = size_rw rw" "interval rw1 = interval rw"
    "ignoreCurrent rw1 = ignoreCurrent rw"
    "r1 = (if interval rw = 0 then Panic IntegerDivideByZero else Ok ())"
    by simp_all
  show ?thesis
  proof (cases "interval rw = 0")
    case True
    with u i1 show ?thesis by (simp add: Add_def)
  next
    case False
    from i1(1) have wf1: "wf_rw rw1" by (simp add: window_invariant_def)
    then have w: "wf_w (win rw1)" "0 \<le> offset rw1" "offset rw1 < size_w (win rw1)"
      by (simp_all add: wf_rw_def)
    have "Add rw v reading1 reading2 =
        (rw1\<lparr>win := (win rw1)\<lparr>buckets := (buckets (win rw1))
            [nat (offset rw1) := add_b (buckets (win rw1) ! nat (offset rw1)) v]\<rparr>\<rparr>, Ok ())"
      using False i1(5) by (simp add: Add_def u add_w_wf [OF w])
    moreover have "window_invariant t0 (rw1\<lparr>win := (win rw1)\<lparr>buckets := (buckets (win rw1))
            [nat (offset rw1) := add_b (buckets (win rw1) ! nat (offset rw1)) v]\<rparr>\<rparr>)"
      using i1(1) by (simp add: window_invariant_def wf_rw_def wf_w_def)
    ultimately show ?thesis using i1 False by simp
  qed
qed

lemma fold_IgnoreCurrentBucket:
  assumes "set opts \<subseteq> {IgnoreCurrentBucket}"
  shows "fold (\<lambda>opt w. opt w) opts rw = rw\<lparr>ignoreCurrent := (opts \<noteq> [] \<or> ignoreCurrent rw)\<rparr>"
  using assms by (induction opts arbitrary: rw) (auto simp: IgnoreCurrentBucket_def)

lemma NewRollingWindow_invariant:
  assumes "1 \<le> sz" "set opts \<subseteq> {IgnoreCurrentBucket}"
  shows "\<exists>rw. NewRollingWindow sz iv opts t0 = Ok rw \<and> window_invariant t0 rw
           \<and> size_rw rw = sz \<and> interval rw = iv \<and> offset rw = 0 \<and> lastTime rw = t0
           \<and> ignoreCurrent rw = (opts \<noteq> [])
           \<and> buckets (win rw) = replicate (nat sz) \<lparr>Sum = 0, Count = 0\<rparr>"
  using assms
  by (simp add: NewRollingWindow_def newWindow_def fold_IgnoreCurrentBucket [OF assms(2)]
      window_invariant_def wf_rw_def wf_w_def Now_def)

lemma reduce_from_shape:
  "size_w (fst (reduce_from w start count fn i s)) = size_w w
   \<and> length (buckets (fst (reduce_from w start count fn i s))) = length (buckets w)"
proof (induction w start count fn i s rule: reduce_from.induct)
  case (1 w start count fn i s)
  show ?case
  proof (cases "i < count")
    case False
    then show ?thesis by (subst (1 2) reduce_from.simps) simp
  next
    case True
    show ?thesis
    proof (cases "bucket_index w (start + i)")
      case (Panic p)
      with True show ?thesis by (subst (1 2) reduce_from.simps) simp
    next
      case (Ok j)
      obtain b' s' where fn: "fn (buckets w ! j) s = (b', s')"
        by (cases "fn (buckets w ! j) s")
      from "1.IH" [OF True Ok fn [symmetric]]
      have "size_w (fst (reduce_from (w\<lparr>buckets := (buckets w)[j := b']\<rparr>) start count fn (i + 1) s'))
          = size_w w
        \<and> length (buckets (fst (reduce_from (w\<lparr>buckets := (buckets w)[j := b']\<rparr>) start count fn (i + 1) s')))
          = length (buckets w)"
        by simp
      then show ?thesis
        by (subst (1 2) reduce_from.simps) (simp add: True Ok fn)
    qed
  qed
qed

lemma Reduce_invariant:
  assumes "window_invariant t0 rw"
  shows "window_invariant t0 (fst (Reduce rw reading fn s))"
proof -
  have "window_invariant t0 (rw\<lparr>win := fst (reduce (win rw) start count fn s)\<rparr>)" for start count
    using assms reduce_from_shape [of "win rw" start count fn 0 s]
    by (simp add: window_invariant_def wf_rw_def wf_w_def reduce_def)
  with assms show ?thesis
    by (simp add: Reduce_def Let_def split_beta split: res.splits)
qed

text \<open>
  Claim C6. The constructor (with no option or with \<open>IgnoreCurrentBucket\<close>) makes a window
  that satisfies the invariant: \<open>0 \<le> offset < size\<close> and \<open>lastTime\<close> congruent modulo
  \<open>interval\<close> to the reading of the clock at construction. Every \<open>Add\<close> preserves the
  invariant, whatever the two readings of the clock; it returns unless \<open>interval\<close> is
  zero, and when it rotates the window it sets \<open>lastTime\<close> to
  \<open>now - (now - lastTime) % interval\<close>. Every \<open>Reduce\<close> preserves the invariant, whatever
  the callback.
\<close>

theorem window_invariant_preserved:
  "(1 \<le> sz \<and> set opts \<subseteq> {IgnoreCurrentBucket} \<longrightarrow>
      (\<exists>rw0. NewRollingWindow sz iv opts t0 = Ok rw0 \<and> window_invariant t0 rw0))
   \<and> (window_invariant t0 rw \<longrightarrow>
        window_invariant t0 (fst (Add rw v reading1 reading2))
        \<and> 0 \<le> offset (fst (Add rw v reading1 reading2))
        \<and> offset (fst (Add rw v reading1 reading2)) < size_rw (fst (Add rw v reading1 reading2))
        \<and> lastTime (fst (Add rw v reading1 reading2)) mod interval rw = t0 mod interval rw
        \<and> snd (Add rw v reading1 reading2)
             = (if interval rw = 0 then Panic IntegerDivideByZero else Ok ())
        \<and> (\<forall>sp. span rw reading1 = Ok sp \<and> 0 < sp \<longrightarrow>
              lastTime (fst (Add rw v reading1 reading2))
                = reading2 - (reading2 - lastTime rw) smod interval rw))
   \<and> (window_invariant t0 rw \<longrightarrow> window_invariant t0 (fst (Reduce rw reading fn s)))"
proof (intro conjI impI)
  assume "window_invariant t0 rw"
  then show "window_invariant t0 (fst (Reduce rw reading fn s))"
    by (rule Reduce_invariant)
next
  assume "1 \<le> sz \<and> set opts \<subseteq> {IgnoreCurrentBucket}"
  then show "\<exists>rw0. NewRollingWindow sz iv opts t0 = Ok rw0 \<and> window_invariant t0 rw0"
    using NewRollingWindow_invariant [of sz opts iv t0] by blast
next
  assume inv: "window_invariant t0 rw"
  note a = Add_invariant [OF inv, of v reading1 reading2]
  from a show "window_invariant t0 (fst (Add rw v reading1 reading2))" by simp
  from a show "0 \<le> offset (fst (Add rw v reading1 reading2))"
    by (simp add: window_invariant_def wf_rw_def)
  from a show "offset (fst (Add rw v reading1 reading2)) < size_rw (fst (Add rw v reading1 reading2))"
    by (simp add: window_invariant_def wf_rw_def)
  from a show "lastTime (fst (Add rw v reading1 reading2)) mod interval rw = t0 mod interval rw"
    by (auto simp: window_invariant_def)
  from a show "snd (Add rw v reading1 reading2)
             = (if interval rw = 0 then Panic IntegerDivideByZero else Ok ())" by simp
  show "\<forall>sp. span rw reading1 = Ok sp \<and> 0 < sp \<longrightarrow>
              lastTime (fst (Add rw v reading1 reading2))
                = reading2 - (reading2 - lastTime rw) smod interval rw"
  proof (intro allI impI)
    fix sp assume sp: "span rw reading1 = Ok sp \<and> 0 < sp"
    then have iv: "interval rw \<noteq> 0" by (auto simp: span_def go_quo_def)
    from inv have wf: "wf_rw rw" by (simp add: window_invariant_def)
    from updateOffset_wf [OF wf iv conjunct1 [OF sp], of reading2] sp
    obtain bs where u: "updateOffset rw reading1 reading2 =
            (rw\<lparr>win := (win rw)\<lparr>buckets := bs\<rparr>,
                      offset := (offset rw + sp) mod size_rw rw,
                      lastTime := reading2 - (reading2 - lastTime rw) smod interval rw\<rparr>, Ok ())"
      by auto
    show "lastTime (fst (Add rw v reading1 reading2))
                = reading2 - (reading2 - lastTime rw) smod interval rw"
      by (simp add: Add_def u split: prod.splits)
  qed
qed

theorem window_invariant_preserved_witness:
  "(\<exists>rw0. NewRollingWindow 3 10 [] 0 = Ok rw0 \<and> window_invariant 0 rw0)
   \<and> window_invariant 0 (fst (Add \<lparr>size_rw = 3,
          win = \<lparr>buckets = replicate 3 \<lparr>Sum = 0, Count = 0\<rparr>, size_w = 3\<rparr>,
          interval = 10, offset = 0, ignoreCurrent = False, lastTime = 0\<rparr> 1 25 26))
   \<and> lastTime (fst (Add \<lparr>size_rw = 3,
          win = \<lparr>buckets = replicate 3 \<lparr>Sum = 0, Count = 0\<rparr>, size_w = 3\<rparr>,
          interval = 10, offset = 0, ignoreCurrent = False, lastTime = 0\<rparr> 1 25 26)) = 20
   \<and> window_invariant 0 (fst (Reduce \<lparr>size_rw = 3,
          win = \<lparr>buckets = replicate 3 \<lparr>Sum = 0, Count = 0\<rparr>, size_w = 3\<rparr>,
          interval = 10, offset = 0, ignoreCurrent = False, lastTime = 0\<rparr> 25
          (\<lambda>bk (n::nat). (reset bk, n + 1)) 0))"
proof -
  let ?rw = "\<lparr>size_rw = 3, win = \<lparr>buckets = replicate 3 \<lparr>Sum = 0, Count = 0\<rparr>, size_w = 3\<rparr>,
          interval = 10, offset = 0, ignoreCurrent = False, lastTime = 0\<rparr>"
  have inv: "window_invariant 0 ?rw"
    by (simp add: window_invariant_def wf_rw_def wf_w_def)
  have sp: "span ?rw 25 = Ok 2 \<and> (0::int) < 2"
    by (simp add: span_def go_quo_def Since_def)
  have opts: "(1::int) \<le> 3 \<and> set [] \<subseteq> {IgnoreCurrentBucket}" by simp
  have sm: "(26::int) smod 10 = 6" by (simp add: smod_mod_positive)
  from window_invariant_preserved [of 3 "[]" 10 0 ?rw 1 25 26 25 "\<lambda>bk (n::nat). (reset bk, n + 1)" 0]
    opts inv sp sm
  show ?thesis by auto
qed

text \<open>
  Claim C3. In a well-formed window of size 3 and interval 10 with offset 0, at a clock
  reading 25 units after \<open>lastTime\<close>, \<open>span\<close> is 2 and \<open>Reduce\<close> calls the callback once,
  on the bucket at index \<open>(offset + span + 1) % size = 0\<close>, and on no other bucket:
  whatever the callback, the result of \<open>Reduce\<close> is the result of that one call.
\<close>

theorem Reduce_after_25:
  assumes "wf_rw rw" and "size_rw rw = 3" and "interval rw = 10" and "offset rw = 0"
    and "Since reading (lastTime rw) = 25"
  shows "span rw reading = Ok 2
    \<and> size_rw rw - 2 = 1
    \<and> (offset rw + 2 + 1) smod size_rw rw = 0
    \<and> Reduce rw reading fn s =
        (case fn (buckets (win rw) ! 0) s of
           (b', s') \<Rightarrow> (rw\<lparr>win := (win rw)\<lparr>buckets := (buckets (win rw))[0 := b']\<rparr>\<rparr>, Ok s'))"
proof -
  have sp: "span rw reading = Ok 2"
    using assms by (simp add: span_def go_quo_def)
  from assms have w: "size_w (win rw) = 3" "length (buckets (win rw)) = 3"
    by (simp_all add: wf_rw_def wf_w_def)
  have bi: "bucket_index (win rw) 0 = Ok 0"
    using w by (simp add: bucket_index_def go_rem_def)
  obtain b' s' where fn: "fn (buckets (win rw) ! 0) s = (b', s')"
    by (cases "fn (buckets (win rw) ! 0) s")
  have "reduce (win rw) 0 1 fn s = ((win rw)\<lparr>buckets := (buckets (win rw))[0 := b']\<rparr>, Ok s')"
    unfolding reduce_def
    by (subst reduce_from.simps, simp add: bi fn, subst reduce_from.simps, simp)
  then have "Reduce rw reading fn s
      = (rw\<lparr>win := (win rw)\<lparr>buckets := (buckets (win rw))[0 := b']\<rparr>\<rparr>, Ok s')"
    using assms(2,4) by (simp add: Reduce_def sp go_rem_def smod_mod_positive)
  with sp assms(2,4) fn show ?thesis by (simp add: smod_mod_positive)
qed

theorem Reduce_after_25_witness:
  "Reduce \<lparr>size_rw = 3,
       win = \<lparr>buckets = [\<lparr>Sum = 1, Count = 2\<rparr>, \<lparr>Sum = 3, Count = 4\<rparr>, \<lparr>Sum = 5, Count = 6\<rparr>], size_w = 3\<rparr>,
       interval = 10, offset = 0, ignoreCurrent = False, lastTime = 100\<rparr> 125
     (\<lambda>b visited. (b, visited @ [b])) []
   = (\<lparr>size_rw = 3,
       win = \<lparr>buckets = [\<lparr>Sum = 1, Count = 2\<rparr>, \<lparr>Sum = 3, Count = 4\<rparr>, \<lparr>Sum = 5, Count = 6\<rparr>], size_w = 3\<rparr>,
       interval = 10, offset = 0, ignoreCurrent = False, lastTime = 100\<rparr>, Ok [\<lparr>Sum = 1, Count = 2\<rparr>])"
proof -
  let ?rw = "\<lparr>size_rw = 3,
       win = \<lparr>buckets = [\<lparr>Sum = 1, Count = 2\<rparr>, \<lparr>Sum = 3, Count = 4\<rparr>, \<lparr>Sum = 5, Count = 6\<rparr>], size_w = 3\<rparr>,
       interval = 10, offset = 0, ignoreCurrent = False, lastTime = 100\<rparr>"
  have wf: "wf_rw ?rw" by (simp add: wf_rw_def wf_w_def)
  have el: "Since 125 (lastTime ?rw) = 25" by (simp add: Since_def)
  from Reduce_after_25 [OF wf _ _ _ el, of "\<lambda>b visited. (b, visited @ [b])" "[]"]
  show ?thesis by simp
qed

text \<open>
  Claim C4. In a window of size \<open>N\<close> (at least 1) and positive interval \<open>I\<close>, at a clock
  reading at least \<open>N * I\<close> after \<open>lastTime\<close>, \<open>span\<close> is \<open>N\<close>, \<open>Reduce\<close> calls the callback
  on no bucket and leaves the window as it is, and \<open>history\<close> returns \<open>(0, 0)\<close>.
\<close>

theorem history_after_full_window:
  assumes "1 \<le> size_rw rw" and "0 < interval rw"
    and "size_rw rw * interval rw \<le> Since reading (lastTime rw)"
  shows "span rw reading = Ok (size_rw rw)
    \<and> Reduce rw reading fn s = (rw, Ok s)
    \<and> (stat b = rw \<longrightarrow> history b reading = (b, Ok (0, 0)))"
proof -
  let ?e = "Since reading (lastTime rw)"
  have e0: "0 \<le> ?e"
    using assms by (meson mult_nonneg_nonneg order_trans less_imp_le zero_le_one)
  have "size_rw rw * interval rw div interval rw \<le> ?e div interval rw"
    using assms(2,3) by (intro zdiv_mono1) simp_all
  then have "size_rw rw \<le> ?e div interval rw"
    using assms(2) by simp
  moreover have "?e sdiv interval rw = ?e div interval rw"
    using e0 assms(2) by (simp add: signed_divide_int_def sgn_if)
  ultimately have q: "\<not> ?e sdiv interval rw < size_rw rw" by simp
  have sp: "span rw reading = Ok (size_rw rw)"
    using assms(2) q by (simp add: span_def go_quo_def)
  have red: "Reduce rw reading fn s = (rw, Ok s)" for fn :: "Bucket \<Rightarrow> 'b \<Rightarrow> Bucket \<times> 'b" and s
    using assms(1) by (simp add: Reduce_def sp)
  have "history b reading = (b, Ok (0, 0))" if "stat b = rw"
    using that by (simp add: history_def red)
  with sp red show ?thesis by simp
qed

theorem history_after_full_window_witness:
  "history \<lparr>k = 3 / 2, stat = \<lparr>size_rw = 2,
       win = \<lparr>buckets = [\<lparr>Sum = 1, Count = 2\<rparr>, \<lparr>Sum = 3, Count = 4\<rparr>], size_w = 2\<rparr>,
       interval = 10, offset = 1, ignoreCurrent = False, lastTime = 100\<rparr>\<rparr> 120
   = (\<lparr>k = 3 / 2, stat = \<lparr>size_rw = 2,
       win = \<lparr>buckets = [\<lparr>Sum = 1, Count = 2\<rparr>, \<lparr>Sum = 3, Count = 4\<rparr>], size_w = 2\<rparr>,
       interval = 10, offset = 1, ignoreCurrent = False, lastTime = 100\<rparr>\<rparr>, Ok (0, 0))"
proof -
  let ?rw = "\<lparr>size_rw = 2,
       win = \<lparr>buckets = [\<lparr>Sum = 1, Count = 2\<rparr>, \<lparr>Sum = 3, Count = 4\<rparr>], size_w = 2\<rparr>,
       interval = 10, offset = 1, ignoreCurrent = False, lastTime = 100\<rparr>"
  have h: "1 \<le> size_rw ?rw" "0 < interval ?rw" "size_rw ?rw * interval ?rw \<le> Since 120 (lastTime ?rw)"
    by (simp_all add: Since_def)
  from history_after_full_window [OF h, of history_fn "(0, 0)" "\<lparr>k = 3 / 2, stat = ?rw\<rparr>"]
  show ?thesis by simp
qed

section \<open>Reading the window\<close>

text \<open>A callback is read-only when it leaves its bucket as it found it.\<close>

lemma reduce_from_frame:
  assumes "\<forall>b s. fst (fn b s) = b"
  shows "fst (reduce_from w start count fn i s) = w"
  using assms
proof (induction w start count fn i s rule: reduce_from.induct)
  case (1 w start count fn i s)
  show ?case
  proof (cases "i < count")
    case False
    then show ?thesis by (subst reduce_from.simps) simp
  next
    case True
    show ?thesis
    proof (cases "bucket_index w (start + i)")
      case (Panic p)
      with True show ?thesis by (subst reduce_from.simps) simp
    next
      case (Ok j)
      obtain b' s' where fn: "fn (buckets w ! j) s = (b', s')"
        by (cases "fn (buckets w ! j) s")
      with "1.prems" have b': "b' = buckets w ! j" by (metis fst_conv)
      have same: "w\<lparr>buckets := (buckets w)[j := b']\<rparr> = w" by (simp add: b')
      from "1.IH" [OF True Ok fn [symmetric] "1.prems"]
      have "fst (reduce_from w start count fn (i + 1) s') = w" by (simp add: same)
      then show ?thesis
        by (subst reduce_from.simps) (simp add: True Ok fn same)
    qed
  qed
qed

lemma Reduce_frame:
  assumes "\<forall>b s. fst (fn b s) = b"
  shows "fst (Reduce rw reading fn s) = rw"
proof -
  have "(case reduce (win rw) start count fn s of (w', r) \<Rightarrow> (rw\<lparr>win := w'\<rparr>, r))
      = (rw, snd (reduce (win rw) start count fn s))" for start count
  proof -
    obtain w' r where red: "reduce (win rw) start count fn s = (w', r)"
      by (cases "reduce (win rw) start count fn s")
    have "fst (reduce (win rw) start count fn s) = win rw"
      unfolding reduce_def by (rule reduce_from_frame [OF assms])
    with red have "w' = win rw" by simp
    with red show ?thesis by simp
  qed
  then show ?thesis
    by (simp add: Reduce_def Let_def split: res.splits)
qed

lemma history_fn_readonly: "\<forall>b s. fst (history_fn b s) = b"
  by (simp add: history_fn_def split: prod.splits)

lemma history_frame: "fst (history b reading) = b"
proof -
  obtain st r where red: "Reduce (stat b) reading history_fn (0, 0) = (st, r)"
    by (cases "Reduce (stat b) reading history_fn (0, 0)")
  with Reduce_frame [OF history_fn_readonly, of "stat b" reading "(0, 0)"]
  have "st = stat b" by simp
  with red show ?thesis by (simp add: history_def)
qed

lemma accept_frame: "fst (accept b reading TrueOnProba) = b"
proof -
  obtain b1 r where h: "history b reading = (b1, r)"
    by (cases "history b reading")
  with history_frame [of b reading] have "b1 = b" by simp
  with h show ?thesis
    by (cases r) (simp_all add: accept_def split: prod.splits)
qed

lemma reduce_from_readonly:
  assumes "wf_w w" "0 \<le> start" "0 \<le> i" "\<forall>b s. fst (fn b s) = b"
  shows "reduce_from w start count fn i s =
    (w, Ok (fold (\<lambda>m s. snd (fn (buckets w ! nat ((start + m) mod size_w w)) s)) [i..count - 1] s))"
  using assms
proof (induction w start count fn i s rule: reduce_from.induct)
  case (1 w start count fn i s)
  show ?case
  proof (cases "i < count")
    case False
    then show ?thesis by (subst reduce_from.simps) simp
  next
    case True
    let ?j = "nat ((start + i) mod size_w w)"
    have bi: "bucket_index w (start + i) = Ok ?j"
      using "1.prems" by (simp add: bucket_index_wf)
    obtain b' s' where fn: "fn (buckets w ! ?j) s = (b', s')"
      by (cases "fn (buckets w ! ?j) s")
    with "1.prems" have b': "b' = buckets w ! ?j" by (metis fst_conv)
    have same: "w\<lparr>buckets := (buckets w)[?j := b']\<rparr> = w" by (simp add: b')
    have i1: "0 \<le> i + 1" using "1.prems" by simp
    have ih: "reduce_from w start count fn (i + 1) s' =
      (w, Ok (fold (\<lambda>m s. snd (fn (buckets w ! nat ((start + m) mod size_w w)) s)) [i + 1..count - 1] s'))"
      using "1.IH" [OF True bi fn [symmetric] _ "1.prems"(2) i1 "1.prems"(4)] "1.prems"(1)
      by (simp add: same)
    have up: "[i..count - 1] = i # [i + 1..count - 1]"
      using True by (simp add: upto_rec1)
    show ?thesis
      by (subst reduce_from.simps) (simp add: True bi fn same ih up)
  qed
qed

lemma fold_history_fn:
  "fold (\<lambda>m s. snd (history_fn (g m) s)) ms (a, t)
     = (a + (\<Sum>m\<leftarrow>ms. int64_of_float64 (Sum (g m))), t + (\<Sum>m\<leftarrow>ms. Count (g m)))"
  by (induction ms arbitrary: a t) (simp_all add: history_fn_def)

text \<open>
  What \<open>history\<close> returns in a well-formed window with a non-zero interval: the sums over
  the \<open>diff\<close> buckets from \<open>offset + span + 1\<close> on.
\<close>

lemma history_closed:
  assumes wf: "wf_rw (stat b)" and sp: "span (stat b) reading = Ok sp"
  shows "history b reading =
    (b, Ok ((\<Sum>m\<leftarrow>[0..(if sp = 0 \<and> ignoreCurrent (stat b) then size_rw (stat b) - 1 else size_rw (stat b) - sp) - 1].
               int64_of_float64 (Sum (buckets (win (stat b)) ! nat ((offset (stat b) + sp + 1 + m) mod size_rw (stat b))))),
            (\<Sum>m\<leftarrow>[0..(if sp = 0 \<and> ignoreCurrent (stat b) then size_rw (stat b) - 1 else size_rw (stat b) - sp) - 1].
               Count (buckets (win (stat b)) ! nat ((offset (stat b) + sp + 1 + m) mod size_rw (stat b))))))"
proof -
  let ?rw = "stat b"
  let ?n = "size_rw ?rw"
  let ?diff = "if sp = 0 \<and> ignoreCurrent ?rw then ?n - 1 else ?n - sp"
  from wf have n: "1 \<le> ?n" "0 \<le> offset ?rw" "wf_w (win ?rw)" "size_w (win ?rw) = ?n"
    by (simp_all add: wf_rw_def wf_w_def)
  from span_range [OF sp n(1)] have r: "0 \<le> sp" "sp \<le> ?n" by simp_all
  have rem: "go_rem (offset ?rw + sp + 1) ?n = Ok ((offset ?rw + sp + 1) mod ?n)"
    using n r by (simp add: go_rem_def smod_mod_positive)
  have start: "0 \<le> (offset ?rw + sp + 1) mod ?n" using n by simp
  have red: "reduce (win ?rw) ((offset ?rw + sp + 1) mod ?n) ?diff history_fn (0, 0) =
      (win ?rw, Ok (fold (\<lambda>m s. snd (history_fn
          (buckets (win ?rw) ! nat (((offset ?rw + sp + 1) mod ?n + m) mod ?n)) s)) [0..?diff - 1] (0, 0)))"
    unfolding reduce_def
    using reduce_from_readonly [OF n(3) start order_refl history_fn_readonly] n(4) by simp
  have fold0: "fold (\<lambda>m s. snd (history_fn
          (buckets (win ?rw) ! nat (((offset ?rw + sp + 1) mod ?n + m) mod ?n)) s)) [0..?diff - 1] (0, 0)
     = ((\<Sum>m\<leftarrow>[0..?diff - 1]. int64_of_float64 (Sum (buckets (win ?rw) ! nat ((offset ?rw + sp + 1 + m) mod ?n)))),
        (\<Sum>m\<leftarrow>[0..?diff - 1]. Count (buckets (win ?rw) ! nat ((offset ?rw + sp + 1 + m) mod ?n))))"
    by (simp add: fold_history_fn mod_add_left_eq)
  show ?thesis
  proof (cases "0 < ?diff")
    case True
    then have "Reduce ?rw reading history_fn (0, 0) = (?rw, Ok (fold (\<lambda>m s. snd (history_fn
          (buckets (win ?rw) ! nat (((offset ?rw + sp + 1) mod ?n + m) mod ?n)) s)) [0..?diff - 1] (0, 0)))"
      by (simp add: Reduce_def sp rem red Let_def)
    then show ?thesis
      unfolding history_def fold0 by simp
  next
    case False
    then have "Reduce ?rw reading history_fn (0, 0) = (?rw, Ok (0, 0))"
      by (simp add: Reduce_def sp Let_def)
    moreover have "[0..?diff - 1] = []" using False by simp
    ultimately show ?thesis
      unfolding history_def by simp
  qed
qed

section \<open>The states of the breaker\<close>

text \<open>
  What \<open>Add\<close> does in a well-formed window with a non-zero interval, when \<open>span\<close> is
  \<open>sp\<close>: the \<open>sp\<close> buckets after \<open>offset\<close> are reset, the window is rotated by \<open>sp\<close> and the
  value is added to the bucket at the new offset.
\<close>

lemma Add_wf:
  assumes wf: "wf_rw rw" and iv: "interval rw \<noteq> 0" and sp: "span rw reading1 = Ok sp"
  shows "\<exists>bs. Add rw v reading1 reading2 =
            ((if sp = 0 then rw
              else rw\<lparr>offset := (offset rw + sp) mod size_rw rw,
                      lastTime := reading2 - (reading2 - lastTime rw) smod interval rw\<rparr>)
             \<lparr>win := (win rw)\<lparr>buckets := bs[nat ((offset rw + sp) mod size_rw rw)
                      := add_b (bs ! nat ((offset rw + sp) mod size_rw rw)) v]\<rparr>\<rparr>, Ok ())
          \<and> length bs = length (buckets (win rw))
          \<and> (\<forall>j<length bs. bs ! j =
                 (if \<exists>m. 0 \<le> m \<and> m < sp \<and> int j = (offset rw + m + 1) mod size_rw rw
                  then reset (buckets (win rw) ! j) else buckets (win rw) ! j))"
proof -
  from wf have n: "1 \<le> size_rw rw" "0 \<le> offset rw" "offset rw < size_rw rw"
    "wf_w (win rw)" "size_w (win rw) = size_rw rw" "int (length (buckets (win rw))) = size_rw rw"
    by (simp_all add: wf_rw_def wf_w_def)
  from updateOffset_wf [OF wf iv sp, of reading2]
  obtain bs where u: "updateOffset rw reading1 reading2 =
            ((if sp = 0 then rw
              else rw\<lparr>win := (win rw)\<lparr>buckets := bs\<rparr>,
                      offset := (offset rw + sp) mod size_rw rw,
                      lastTime := reading2 - (reading2 - lastTime rw) smod interval rw\<rparr>), Ok ())"
    and len: "length bs = length (buckets (win rw))"
    and c: "\<forall>j<length bs. bs ! j =
                 (if \<exists>m. 0 \<le> m \<and> m < sp \<and> int j = (offset rw + m + 1) mod size_rw rw
                  then reset (buckets (win rw) ! j) else buckets (win rw) ! j)"
    by blast
  show ?thesis
  proof (cases "sp = 0")
    case True
    have bs: "bs = buckets (win rw)"
      using len c True by (intro nth_equalityI) auto
    have o: "(offset rw + sp) mod size_rw rw = offset rw"
      using True n by simp
    have "Add rw v reading1 reading2 =
        (rw\<lparr>win := (win rw)\<lparr>buckets := (buckets (win rw))
            [nat (offset rw) := add_b (buckets (win rw) ! nat (offset rw)) v]\<rparr>\<rparr>, Ok ())"
      using True n by (simp add: Add_def u add_w_wf)
    moreover have "offset rw mod size_rw rw = offset rw" using n by simp
    ultimately show ?thesis
      using True len c by (intro exI [of _ bs]) (simp add: bs)
  next
    case False
    let ?o = "(offset rw + sp) mod size_rw rw"
    let ?rw1 = "rw\<lparr>win := (win rw)\<lparr>buckets := bs\<rparr>, offset := ?o,
                      lastTime := reading2 - (reading2 - lastTime rw) smod interval rw\<rparr>"
    have w1: "wf_w (win ?rw1)" "0 \<le> offset ?rw1" "offset ?rw1 < size_w (win ?rw1)"
      using n len by (simp_all add: wf_w_def)
    have aw: "add_w ((win rw)\<lparr>buckets := bs\<rparr>) ?o v
        = ((win rw)\<lparr>buckets := bs[nat ?o := add_b (bs ! nat ?o) v]\<rparr>, Ok ())"
      using add_w_wf [OF w1, of v] by simp
    have "Add rw v reading1 reading2 =
        (?rw1\<lparr>win := (win ?rw1)\<lparr>buckets := (buckets (win ?rw1))
            [nat (offset ?rw1) := add_b (buckets (win ?rw1) ! nat (offset ?rw1)) v]\<rparr>\<rparr>, Ok ())"
      using False by (simp add: Add_def u aw)
    with False len c show ?thesis
      by (intro exI [of _ bs]) simp
  qed
qed

lemma reset_nonneg: "0 \<le> Sum (reset bk) \<and> 0 \<le> Count (reset bk)"
  by (simp add: reset_def)

lemma add_b_nonneg:
  "0 \<le> v \<Longrightarrow> 0 \<le> Sum bk \<and> 0 \<le> Count bk \<Longrightarrow> 0 \<le> Sum (add_b bk v) \<and> 0 \<le> Count (add_b bk v)"
  by (simp add: add_b_def)

lemma Add_breaker_inv:
  assumes inv: "breaker_inv b" and v: "0 \<le> v"
    and a: "Add (stat b) v reading1 reading2 = (st, r)"
  shows "breaker_inv (b\<lparr>stat := st\<rparr>) \<and> r = Ok ()"
proof -
  let ?rw = "stat b"
  let ?n = "size_rw ?rw"
  from inv have wf: "wf_rw ?rw" and iv: "interval ?rw \<noteq> 0"
    and nn: "\<forall>bk\<in>set (buckets (win ?rw)). 0 \<le> Sum bk \<and> 0 \<le> Count bk"
    by (simp_all add: breaker_inv_def)
  from wf have n: "1 \<le> ?n" "int (length (buckets (win ?rw))) = ?n" "size_w (win ?rw) = ?n"
    by (simp_all add: wf_rw_def wf_w_def)
  obtain sp where sp: "span ?rw reading1 = Ok sp"
    using span_cases [OF iv] by blast
  let ?o = "(offset ?rw + sp) mod ?n"
  from Add_wf [OF wf iv sp, of v reading2] a
  obtain bs where st: "st = (if sp = 0 then ?rw
              else ?rw\<lparr>offset := ?o,
                      lastTime := reading2 - (reading2 - lastTime ?rw) smod interval ?rw\<rparr>)
             \<lparr>win := (win ?rw)\<lparr>buckets := bs[nat ?o := add_b (bs ! nat ?o) v]\<rparr>\<rparr>"
    and r: "r = Ok ()"
    and len: "length bs = length (buckets (win ?rw))"
    and c: "\<forall>j<length bs. bs ! j =
                 (if \<exists>m. 0 \<le> m \<and> m < sp \<and> int j = (offset ?rw + m + 1) mod ?n
                  then reset (buckets (win ?rw) ! j) else buckets (win ?rw) ! j)"
    by auto
  have bsnn: "0 \<le> Sum (bs ! j) \<and> 0 \<le> Count (bs ! j)" if "j < length bs" for j
  proof -
    from that len nn have "0 \<le> Sum (buckets (win ?rw) ! j) \<and> 0 \<le> Count (buckets (win ?rw) ! j)"
      by simp
    with c that reset_nonneg show ?thesis by (auto split: if_splits)
  qed
  have o: "0 \<le> ?o" "?o < ?n" using n by simp_all
  have newnn: "\<forall>bk\<in>set (bs[nat ?o := add_b (bs ! nat ?o) v]). 0 \<le> Sum bk \<and> 0 \<le> Count bk"
  proof
    fix bk assume "bk \<in> set (bs[nat ?o := add_b (bs ! nat ?o) v])"
    then obtain j where j: "j < length bs" "bk = bs[nat ?o := add_b (bs ! nat ?o) v] ! j"
      by (auto simp: in_set_conv_nth)
    show "0 \<le> Sum bk \<and> 0 \<le> Count bk"
    proof (cases "j = nat ?o")
      case True
      with j have "bk = add_b (bs ! j) v" by simp
      with add_b_nonneg [OF v bsnn [OF j(1)]] show ?thesis by simp
    next
      case False
      with j have "bk = bs ! j" by simp
      with bsnn [OF j(1)] show ?thesis by simp
    qed
  qed
  have wf': "wf_rw st"
    using wf len o n unfolding st by (simp add: wf_rw_def wf_w_def)
  have "breaker_inv (b\<lparr>stat := st\<rparr>)"
    using inv wf' newnn unfolding breaker_inv_def by (simp add: st)
  with r show ?thesis by simp
qed

lemma markSuccess_breaker_inv:
  assumes "breaker_inv b" "markSuccess b reading1 reading2 = (b', r)"
  shows "breaker_inv b' \<and> r = Ok ()"
proof -
  obtain st r' where a: "Add (stat b) 1 reading1 reading2 = (st, r')"
    by (cases "Add (stat b) 1 reading1 reading2")
  from Add_breaker_inv [OF assms(1) _ a] assms(2) a show ?thesis
    by (simp add: markSuccess_def)
qed

lemma markFailure_breaker_inv:
  assumes "breaker_inv b" "markFailure b reading1 reading2 = (b', r)"
  shows "breaker_inv b' \<and> r = Ok ()"
proof -
  obtain st r' where a: "Add (stat b) 0 reading1 reading2 = (st, r')"
    by (cases "Add (stat b) 0 reading1 reading2")
  from Add_breaker_inv [OF assms(1) _ a] assms(2) a show ?thesis
    by (simp add: markFailure_def)
qed

lemma newGoogleBreaker_eq:
  "newGoogleBreaker reading = Ok \<lparr>k = k_const, stat = \<lparr>size_rw = 40,
       win = \<lparr>buckets = replicate 40 \<lparr>Sum = 0, Count = 0\<rparr>, size_w = 40\<rparr>,
       interval = 250000000, offset = 0, ignoreCurrent = False, lastTime = reading\<rparr>\<rparr>"
  by (simp add: newGoogleBreaker_def go_quo_def window_const_def Second_def buckets_const_def
      NewRollingWindow_def newWindow_def Now_def)

lemma newGoogleBreaker_breaker_inv:
  assumes "newGoogleBreaker reading = Ok b"
  shows "breaker_inv b"
  using assms unfolding newGoogleBreaker_eq
  by (auto simp: breaker_inv_def wf_rw_def wf_w_def buckets_const_def)

lemma doReq_body_breaker_inv:
  assumes "breaker_inv b" "doReq_body b req acceptable at_mark = (b', calls, r)"
  shows "breaker_inv b'"
proof (cases req)
  case (Panics e)
  with assms show ?thesis by (simp add: doReq_body_def)
next
  case (Returns err)
  show ?thesis
  proof (cases "acceptable err")
    case True
    obtain b1 r1 where m: "markSuccess b (fst at_mark) (snd at_mark) = (b1, r1)"
      by (cases "markSuccess b (fst at_mark) (snd at_mark)")
    from markSuccess_breaker_inv [OF assms(1) m] assms(2) Returns True m
    show ?thesis by (simp add: doReq_body_def)
  next
    case False
    obtain b1 r1 where m: "markFailure b (fst at_mark) (snd at_mark) = (b1, r1)"
      by (cases "markFailure b (fst at_mark) (snd at_mark)")
    from markFailure_breaker_inv [OF assms(1) m] assms(2) Returns False m
    show ?thesis by (simp add: doReq_body_def)
  qed
qed

lemma doReq_breaker_inv:
  assumes inv: "breaker_inv b"
    and d: "doReq b req fallback acceptable TrueOnProba at_accept at_mark at_recover = (b', calls, r)"
  shows "breaker_inv b'"
proof -
  obtain ra where acc: "accept b at_accept TrueOnProba = (b, ra)"
    using accept_frame [of b at_accept TrueOnProba]
    by (cases "accept b at_accept TrueOnProba") simp
  show ?thesis
  proof (cases ra)
    case (Panic p)
    with d acc inv show ?thesis by (simp add: doReq_def)
  next
    case (Ok eo)
    show ?thesis
    proof (cases eo)
      case (Some err)
      with d acc inv Ok show ?thesis by (cases fallback) (simp_all add: doReq_def)
    next
      case None
      obtain b1 calls1 r1 where body: "doReq_body b req acceptable at_mark = (b1, calls1, r1)"
        by (cases "doReq_body b req acceptable at_mark") auto
      from doReq_body_breaker_inv [OF inv body] have inv1: "breaker_inv b1" .
      show ?thesis
      proof (cases r1)
        case (Ok err)
        with d acc None \<open>ra = Ok eo\<close> body inv1 show ?thesis by (simp add: doReq_def)
      next
        case (Panic e)
        obtain b2 r2 where m: "markFailure b1 (fst at_recover) (snd at_recover) = (b2, r2)"
          by (cases "markFailure b1 (fst at_recover) (snd at_recover)")
        from markFailure_breaker_inv [OF inv1 m] have "breaker_inv b2" "r2 = Ok ()" by simp_all
        with d acc None \<open>ra = Ok eo\<close> body Panic m inv1 show ?thesis
          by (cases "e = NilValue") (simp_all add: doReq_def)
      qed
    qed
  qed
qed

lemma reachable_breaker_inv: "reachable b \<Longrightarrow> breaker_inv b"
proof (induction rule: reachable.induct)
  case (reachable_new reading b)
  then show ?case by (rule newGoogleBreaker_breaker_inv)
next
  case (reachable_markSuccess b reading1 reading2 b' r)
  then show ?case using markSuccess_breaker_inv by blast
next
  case (reachable_markFailure b reading1 reading2 b' r)
  then show ?case using markFailure_breaker_inv by blast
next
  case (reachable_accept b reading TrueOnProba b' ra)
  then show ?case using accept_frame [of b reading TrueOnProba] by simp
next
  case (reachable_doReq b req fallback acceptable TrueOnProba at_accept at_mark at_recover b' calls rd)
  then show ?case using doReq_breaker_inv by blast
qed

section \<open>Sums over the ring of buckets\<close>

lemma rotate_bij:
  fixes n :: int
  assumes "0 < n"
  shows "bij_betw (\<lambda>m. (c + m) mod n) {0..n - 1} {0..n - 1}"
proof (rule bij_betw_byWitness [where f' = "\<lambda>j. (j - c) mod n"])
  show "\<forall>m\<in>{0..n - 1}. ((c + m) mod n - c) mod n = m"
    using assms by (simp add: mod_diff_left_eq)
  show "\<forall>j\<in>{0..n - 1}. (c + (j - c) mod n) mod n = j"
    using assms by (simp add: mod_add_right_eq)
  show "(\<lambda>m. (c + m) mod n) ` {0..n - 1} \<subseteq> {0..n - 1}"
    using assms by auto
  show "(\<lambda>j. (j - c) mod n) ` {0..n - 1} \<subseteq> {0..n - 1}"
    using assms by auto
qed

lemma sum_rotate:
  fixes n :: int and g :: "int \<Rightarrow> int"
  assumes "0 < n"
  shows "(\<Sum>m\<in>{0..n - 1}. g ((c + m) mod n)) = (\<Sum>j\<in>{0..n - 1}. g j)"
  by (rule sum.reindex_bij_betw [OF rotate_bij [OF assms]])

lemma sum_shift:
  fixes g :: "int \<Rightarrow> int"
  shows "(\<Sum>m\<in>{a..b}. g m) = (\<Sum>m\<in>{0..b - a}. g (m + a))"
proof -
  have "bij_betw (\<lambda>m. m + a) {0..b - a} {a..b}"
    by (rule bij_betw_byWitness [where f' = "\<lambda>m. m - a"]) auto
  from sum.reindex_bij_betw [OF this, of g] show ?thesis by simp
qed

lemma sum_one_changed:
  fixes g h :: "int \<Rightarrow> int"
  assumes "finite S" "a \<in> S" "\<And>j. j \<in> S \<Longrightarrow> j \<noteq> a \<Longrightarrow> h j = g j"
  shows "sum h S = sum g S - g a + h a"
proof -
  have "sum h (S - {a}) = sum g (S - {a})"
    using assms(3) by (intro sum.cong) auto
  then show ?thesis
    using sum.remove [OF assms(1,2), of h] sum.remove [OF assms(1,2), of g] by simp
qed

text \<open>
  After the reset loop, the sum over all buckets is the sum over the buckets that
  \<open>Reduce\<close> visited before it: those from \<open>offset + span + 1\<close> on.
\<close>

lemma sum_buckets_after_reset:
  fixes f :: "Bucket \<Rightarrow> int" and old bs :: "Bucket list" and n off sp :: int
  assumes n: "1 \<le> n" "int (length old) = n" "length bs = length old"
    and sp: "0 \<le> sp" "sp \<le> n"
    and c: "\<forall>j<length bs. bs ! j =
              (if \<exists>m. 0 \<le> m \<and> m < sp \<and> int j = (off + m + 1) mod n
               then reset (old ! j) else old ! j)"
    and f0: "\<And>x. f (reset x) = 0"
  shows "(\<Sum>j\<in>{0..n - 1}. f (bs ! nat j))
       = (\<Sum>m\<in>{0..n - sp - 1}. f (old ! nat ((off + sp + 1 + m) mod n)))"
proof -
  let ?psi = "\<lambda>m. (off + 1 + m) mod n"
  have n0: "0 < n" using n by simp
  have inj: "inj_on ?psi {0..n - 1}"
    using rotate_bij [OF n0, of "off + 1"] by (rule bij_betw_imp_inj_on)
  have lo: "f (bs ! nat (?psi m)) = 0" if "m \<in> {0..sp - 1}" for m
  proof -
    define j where "j = nat (?psi m)"
    have jl: "j < length bs" using n n0 by (simp add: j_def nat_less_iff)
    have ij: "int j = ?psi m" using n0 by (simp add: j_def)
    have ex: "\<exists>m'. 0 \<le> m' \<and> m' < sp \<and> int j = (off + m' + 1) mod n"
      using that ij by (intro exI [of _ m]) (simp add: add.commute add.left_commute)
    from c jl have "bs ! j = (if \<exists>m'. 0 \<le> m' \<and> m' < sp \<and> int j = (off + m' + 1) mod n
               then reset (old ! j) else old ! j)" by blast
    with ex have "bs ! j = reset (old ! j)" by (simp only: if_True)
    then show ?thesis by (simp add: f0 j_def)
  qed
  have hi: "f (bs ! nat (?psi m)) = f (old ! nat (?psi m))" if "m \<in> {sp..n - 1}" for m
  proof -
    define j where "j = nat (?psi m)"
    have jl: "j < length bs" using n n0 by (simp add: j_def nat_less_iff)
    have ij: "int j = ?psi m" using n0 by (simp add: j_def)
    have nex: "\<not> (\<exists>m'. 0 \<le> m' \<and> m' < sp \<and> int j = (off + m' + 1) mod n)"
    proof
      assume "\<exists>m'. 0 \<le> m' \<and> m' < sp \<and> int j = (off + m' + 1) mod n"
      then obtain m' where m': "0 \<le> m'" "m' < sp" "int j = (off + m' + 1) mod n"
        by blast
      then have "?psi m = ?psi m'" using ij by (simp add: add.commute add.left_commute)
      moreover have "m \<in> {0..n - 1}" "m' \<in> {0..n - 1}" using that m' sp by auto
      ultimately have "m = m'" using inj by (auto dest: inj_onD)
      with that m' show False by simp
    qed
    from c jl have "bs ! j = (if \<exists>m'. 0 \<le> m' \<and> m' < sp \<and> int j = (off + m' + 1) mod n
               then reset (old ! j) else old ! j)" by blast
    with nex have "bs ! j = old ! j" by (simp only: if_False)
    then show ?thesis by (simp add: j_def)
  qed
  have "(\<Sum>j\<in>{0..n - 1}. f (bs ! nat j)) = (\<Sum>m\<in>{0..n - 1}. f (bs ! nat (?psi m)))"
    using sum_rotate [OF n0, of "\<lambda>j. f (bs ! nat j)" "off + 1"] by simp
  also have "\<dots> = (\<Sum>m\<in>{0..sp - 1}. f (bs ! nat (?psi m))) + (\<Sum>m\<in>{sp..n - 1}. f (bs ! nat (?psi m)))"
  proof -
    have "{0..n - 1} = {0..sp - 1} \<union> {sp..n - 1}" using sp by auto
    moreover have "(\<Sum>m\<in>{0..sp - 1} \<union> {sp..n - 1}. f (bs ! nat (?psi m)))
      = (\<Sum>m\<in>{0..sp - 1}. f (bs ! nat (?psi m))) + (\<Sum>m\<in>{sp..n - 1}. f (bs ! nat (?psi m)))"
      by (rule sum.union_disjoint) auto
    ultimately show ?thesis by simp
  qed
  also have "(\<Sum>m\<in>{0..sp - 1}. f (bs ! nat (?psi m))) = 0"
    using lo by (intro sum.neutral) blast
  also have "(\<Sum>m\<in>{sp..n - 1}. f (bs ! nat (?psi m))) = (\<Sum>m\<in>{sp..n - 1}. f (old ! nat (?psi m)))"
    using hi by (intro sum.cong) auto
  also have "\<dots> = (\<Sum>m\<in>{0..n - 1 - sp}. f (old ! nat (?psi (m + sp))))"
    by (rule sum_shift)
  also have "\<dots> = (\<Sum>m\<in>{0..n - sp - 1}. f (old ! nat ((off + sp + 1 + m) mod n)))"
    by (intro sum.cong) (auto simp: algebra_simps)
  finally show ?thesis by simp
qed

lemma sum_buckets_after_Add:
  fixes f :: "Bucket \<Rightarrow> int" and old bs :: "Bucket list" and n off sp off' c d :: int
  assumes n: "1 \<le> n" "int (length old) = n" "length bs = length old"
    and sp: "0 \<le> sp" "sp \<le> n"
    and c: "\<forall>j<length bs. bs ! j =
              (if \<exists>m. 0 \<le> m \<and> m < sp \<and> int j = (off + m + 1) mod n
               then reset (old ! j) else old ! j)"
    and f0: "\<And>x. f (reset x) = 0"
    and off': "0 \<le> off'" "off' < n"
    and d: "f (add_b (bs ! nat off') v) = f (bs ! nat off') + d"
  shows "(\<Sum>m\<leftarrow>[0..n - 1]. f (bs[nat off' := add_b (bs ! nat off') v] ! nat ((c + m) mod n)))
       = (\<Sum>m\<leftarrow>[0..n - sp - 1]. f (old ! nat ((off + sp + 1 + m) mod n))) + d"
proof -
  let ?bs' = "bs[nat off' := add_b (bs ! nat off') v]"
  have n0: "0 < n" using n by simp
  have "(\<Sum>m\<leftarrow>[0..n - 1]. f (?bs' ! nat ((c + m) mod n)))
      = (\<Sum>m\<in>{0..n - 1}. f (?bs' ! nat ((c + m) mod n)))"
    by (simp add: interv_sum_list_conv_sum_set_int)
  also have "\<dots> = (\<Sum>j\<in>{0..n - 1}. f (?bs' ! nat j))"
    by (rule sum_rotate [OF n0, of "\<lambda>j. f (?bs' ! nat j)" c])
  also have "\<dots> = (\<Sum>j\<in>{0..n - 1}. f (bs ! nat j)) - f (bs ! nat off') + f (?bs' ! nat off')"
  proof (rule sum_one_changed)
    show "finite {0..n - 1}" by simp
    show "off' \<in> {0..n - 1}" using off' by simp
    fix j assume "j \<in> {0..n - 1}" "j \<noteq> off'"
    then have "nat j \<noteq> nat off'" using off' by auto
    then show "f (?bs' ! nat j) = f (bs ! nat j)" by simp
  qed
  also have "f (?bs' ! nat off') = f (bs ! nat off') + d"
    using off' n d by (simp add: nat_less_iff)
  also have "(\<Sum>j\<in>{0..n - 1}. f (bs ! nat j))
      = (\<Sum>m\<in>{0..n - sp - 1}. f (old ! nat ((off + sp + 1 + m) mod n)))"
    by (rule sum_buckets_after_reset [where f = f, OF n sp c f0])
  also have "\<dots> = (\<Sum>m\<leftarrow>[0..n - sp - 1]. f (old ! nat ((off + sp + 1 + m) mod n)))"
    by (simp add: interv_sum_list_conv_sum_set_int)
  finally show ?thesis by simp
qed

lemma int64_of_float64_add:
  assumes "0 \<le> x" "v = 0 \<or> v = 1"
  shows "int64_of_float64 (x + v) = int64_of_float64 x + int64_of_float64 v"
  using assms by (auto simp: int64_of_float64_def)

text \<open>
  In a breaker, after \<open>Add\<close> of 0 or 1 with the first clock reading \<open>reading1\<close>, a
  \<open>history\<close> at a reading in the same bucket interval (\<open>span\<close> is 0) returns what
  \<open>history\<close> returned at \<open>reading1\<close> before the \<open>Add\<close>, plus the value and plus one attempt.
\<close>

lemma history_after_Add:
  assumes inv: "breaker_inv b" and v: "v = 0 \<or> v = 1"
    and a: "Add (stat b) v reading1 reading2 = (st, r)"
    and sp3: "span st reading3 = Ok 0"
  shows "\<exists>accepts total'. history b reading1 = (b, Ok (accepts, total'))
    \<and> history (b\<lparr>stat := st\<rparr>) reading3
        = (b\<lparr>stat := st\<rparr>, Ok (accepts + int64_of_float64 v, total' + 1))"
proof -
  let ?rw = "stat b"
  let ?n = "size_rw ?rw"
  let ?old = "buckets (win ?rw)"
  from inv have wf: "wf_rw ?rw" and iv: "interval ?rw \<noteq> 0" and ic: "\<not> ignoreCurrent ?rw"
    and nn: "\<forall>bk\<in>set ?old. 0 \<le> Sum bk \<and> 0 \<le> Count bk"
    by (simp_all add: breaker_inv_def)
  from wf have n: "1 \<le> ?n" "int (length ?old) = ?n" "0 \<le> offset ?rw" "offset ?rw < ?n"
    by (simp_all add: wf_rw_def wf_w_def)
  obtain sp where sp: "span ?rw reading1 = Ok sp"
    using span_cases [OF iv] by blast
  from span_range [OF sp n(1)] have r: "0 \<le> sp" "sp \<le> ?n" by simp_all
  let ?o = "(offset ?rw + sp) mod ?n"
  have o: "0 \<le> ?o" "?o < ?n" using n by simp_all
  have vv: "0 \<le> v" using v by auto
  from Add_wf [OF wf iv sp, of v reading2] a
  obtain bs where st: "st = (if sp = 0 then ?rw
              else ?rw\<lparr>offset := ?o,
                      lastTime := reading2 - (reading2 - lastTime ?rw) smod interval ?rw\<rparr>)
             \<lparr>win := (win ?rw)\<lparr>buckets := bs[nat ?o := add_b (bs ! nat ?o) v]\<rparr>\<rparr>"
    and len: "length bs = length ?old"
    and c: "\<forall>j<length bs. bs ! j =
                 (if \<exists>m. 0 \<le> m \<and> m < sp \<and> int j = (offset ?rw + m + 1) mod ?n
                  then reset (?old ! j) else ?old ! j)"
    by auto
  have o0: "sp = 0 \<Longrightarrow> ?o = offset ?rw" using n by simp
  have st_fields: "size_rw st = ?n" "offset st = ?o" "\<not> ignoreCurrent st"
    "buckets (win st) = bs[nat ?o := add_b (bs ! nat ?o) v]"
    using ic o0 by (auto simp: st)
  from Add_breaker_inv [OF inv vv a] have inv': "breaker_inv (b\<lparr>stat := st\<rparr>)" by simp
  then have wf': "wf_rw (stat (b\<lparr>stat := st\<rparr>))" by (simp add: breaker_inv_def)
  have sp3': "span (stat (b\<lparr>stat := st\<rparr>)) reading3 = Ok 0" using sp3 by simp
  have before: "history b reading1 =
      (b, Ok ((\<Sum>m\<leftarrow>[0..?n - sp - 1]. int64_of_float64 (Sum (?old ! nat ((offset ?rw + sp + 1 + m) mod ?n)))),
              (\<Sum>m\<leftarrow>[0..?n - sp - 1]. Count (?old ! nat ((offset ?rw + sp + 1 + m) mod ?n)))))"
    using history_closed [OF wf sp] ic by simp
  have after: "history (b\<lparr>stat := st\<rparr>) reading3 =
      (b\<lparr>stat := st\<rparr>,
       Ok ((\<Sum>m\<leftarrow>[0..?n - 1]. int64_of_float64 (Sum (bs[nat ?o := add_b (bs ! nat ?o) v] ! nat ((?o + 1 + m) mod ?n)))),
           (\<Sum>m\<leftarrow>[0..?n - 1]. Count (bs[nat ?o := add_b (bs ! nat ?o) v] ! nat ((?o + 1 + m) mod ?n)))))"
    using history_closed [OF wf' sp3'] st_fields by simp
  have jo: "nat ?o < length bs" using o n len by (simp add: nat_less_iff)
  have bso: "0 \<le> Sum (bs ! nat ?o)"
  proof -
    from jo len nn have "0 \<le> Sum (?old ! nat ?o)" by simp
    with c jo show ?thesis by (auto simp: reset_def split: if_splits)
  qed
  have dA: "int64_of_float64 (Sum (add_b (bs ! nat ?o) v))
      = int64_of_float64 (Sum (bs ! nat ?o)) + int64_of_float64 v"
    using int64_of_float64_add [OF bso v] by (simp add: add_b_def)
  have dT: "Count (add_b (bs ! nat ?o) v) = Count (bs ! nat ?o) + 1"
    by (simp add: add_b_def)
  have A: "(\<Sum>m\<leftarrow>[0..?n - 1]. int64_of_float64 (Sum (bs[nat ?o := add_b (bs ! nat ?o) v] ! nat ((?o + 1 + m) mod ?n))))
      = (\<Sum>m\<leftarrow>[0..?n - sp - 1]. int64_of_float64 (Sum (?old ! nat ((offset ?rw + sp + 1 + m) mod ?n))))
        + int64_of_float64 v"
    by (rule sum_buckets_after_Add [where f = "\<lambda>x. int64_of_float64 (Sum x)", OF n(1,2) len r c _ o dA])
      (simp add: reset_def int64_of_float64_def)
  have T: "(\<Sum>m\<leftarrow>[0..?n - 1]. Count (bs[nat ?o := add_b (bs ! nat ?o) v] ! nat ((?o + 1 + m) mod ?n)))
      = (\<Sum>m\<leftarrow>[0..?n - sp - 1]. Count (?old ! nat ((offset ?rw + sp + 1 + m) mod ?n))) + 1"
    by (rule sum_buckets_after_Add [where f = Count, OF n(1,2) len r c _ o dT])
      (simp add: reset_def)
  show ?thesis
    unfolding before after A T by simp
qed

section \<open>Admission and the wrapped call\<close>

lemma history_accepts_nonneg:
  assumes inv: "breaker_inv b"
  shows "\<exists>accepts total'. history b reading = (b, Ok (accepts, total')) \<and> 0 \<le> accepts"
proof -
  let ?rw = "stat b"
  let ?n = "size_rw ?rw"
  from inv have wf: "wf_rw ?rw" and iv: "interval ?rw \<noteq> 0"
    and nn: "\<forall>bk\<in>set (buckets (win ?rw)). 0 \<le> Sum bk \<and> 0 \<le> Count bk"
    by (simp_all add: breaker_inv_def)
  from wf have n: "1 \<le> ?n" "int (length (buckets (win ?rw))) = ?n"
    by (simp_all add: wf_rw_def wf_w_def)
  obtain sp where sp: "span ?rw reading = Ok sp"
    using span_cases [OF iv] by blast
  have "0 \<le> int64_of_float64 (Sum (buckets (win ?rw) ! nat (j mod ?n)))" for j
  proof -
    have "nat (j mod ?n) < length (buckets (win ?rw))"
      using n by (simp add: nat_less_iff)
    with nn have "0 \<le> Sum (buckets (win ?rw) ! nat (j mod ?n))" by simp
    then show ?thesis by (simp add: int64_of_float64_def)
  qed
  then have "0 \<le> (\<Sum>m\<leftarrow>ms. int64_of_float64 (Sum (buckets (win ?rw) ! nat ((c + m) mod ?n))))"
    for ms c
    by (intro sum_list_nonneg) auto
  with history_closed [OF wf sp] show ?thesis by simp
qed

text \<open>
  Claim C2. In every reachable state of a breaker, at every clock reading, \<open>history\<close>
  returns; when the total it returns is 0, the drop ratio is 0 and \<open>accept\<close> returns nil,
  whatever the probability gate would answer.
\<close>

theorem accept_admits_without_attempts:
  assumes "reachable b"
  shows "\<exists>accepts total'. history b reading = (b, Ok (accepts, total'))
    \<and> (total' = 0 \<longrightarrow> dropRatio (k b) accepts total' = 0
          \<and> accept b reading TrueOnProba = (b, Ok None))"
proof -
  from reachable_breaker_inv [OF assms] have inv: "breaker_inv b" .
  then have kb: "k b = 3 / 2" by (simp add: breaker_inv_def k_const_def)
  from history_accepts_nonneg [OF inv, of reading]
  obtain accepts total' where h: "history b reading = (b, Ok (accepts, total'))"
    and a: "0 \<le> accepts" by blast
  have "dropRatio (k b) accepts 0 = 0"
    using a by (simp add: dropRatio_def kb protection_def max_def)
  then have "total' = 0 \<longrightarrow> dropRatio (k b) accepts total' = 0
          \<and> accept b reading TrueOnProba = (b, Ok None)"
    by (simp add: accept_def h)
  with h show ?thesis by blast
qed

lemma reachable_fresh_breaker: "reachable fresh_breaker"
  unfolding fresh_breaker_def by (rule reachable_new [of 0]) (rule newGoogleBreaker_eq)

lemma history_fresh_breaker: "history fresh_breaker 10000000000 = (fresh_breaker, Ok (0, 0))"
  by (simp add: fresh_breaker_def history_def Reduce_def span_def go_quo_def Since_def)

lemma accept_fresh_breaker: "accept fresh_breaker 10000000000 TrueOnProba = (fresh_breaker, Ok None)"
  unfolding accept_def history_fresh_breaker
  by (simp add: dropRatio_def protection_def)

lemma span_fresh_breaker_after_Add:
  "span (fst (Add (stat fresh_breaker) v 10000000000 10000000000)) 10000000000 = Ok 0"
proof -
  have wf: "wf_rw (stat fresh_breaker)"
    by (simp add: fresh_breaker_def wf_rw_def wf_w_def)
  have iv: "interval (stat fresh_breaker) \<noteq> 0" by (simp add: fresh_breaker_def)
  have sp: "span (stat fresh_breaker) 10000000000 = Ok 40"
    by (simp add: fresh_breaker_def span_def go_quo_def Since_def)
  from Add_wf [OF wf iv sp, of v 10000000000]
  obtain bs where "Add (stat fresh_breaker) v 10000000000 10000000000 =
            ((stat fresh_breaker)\<lparr>offset := (offset (stat fresh_breaker) + 40) mod size_rw (stat fresh_breaker),
                      lastTime := 10000000000 - (10000000000 - lastTime (stat fresh_breaker))
                          smod interval (stat fresh_breaker)\<rparr>
             \<lparr>win := (win (stat fresh_breaker))\<lparr>buckets := bs[nat ((offset (stat fresh_breaker) + 40)
                      mod size_rw (stat fresh_breaker))
                      := add_b (bs ! nat ((offset (stat fresh_breaker) + 40) mod size_rw (stat fresh_breaker))) v]\<rparr>\<rparr>,
             Ok ())"
    by auto
  then show ?thesis
    by (simp add: fresh_breaker_def span_def go_quo_def Since_def smod_mod_positive)
qed

theorem accept_admits_without_attempts_witness:
  "reachable fresh_breaker
   \<and> history fresh_breaker 10000000000 = (fresh_breaker, Ok (0, 0))
   \<and> accept fresh_breaker 10000000000 (\<lambda>p. True) = (fresh_breaker, Ok None)"
  using accept_admits_without_attempts [OF reachable_fresh_breaker, of 10000000000 "\<lambda>p. True"]
  by (simp add: history_fresh_breaker reachable_fresh_breaker)

text \<open>
  Claim C4 as stated, for every interval, fails. The constructor checks \<open>size\<close> and not
  \<open>interval\<close>. In a window made with interval 0,
  any reading is at least \<open>size * interval\<close> after \<open>lastTime\<close>, and \<open>span\<close>, hence
  \<open>history\<close>, panics on the division. In a window made with interval \<open>-10\<close>, at the reading
  of its construction the elapsed time 0 is at least \<open>size * interval = -10\<close>, and after one
  \<open>Add\<close> of 1 at that reading \<open>history\<close> returns \<open>(1, 1)\<close>.
\<close>

theorem history_after_full_window_counterexample:
  "NewRollingWindow 1 0 [] 0
     = Ok \<lparr>size_rw = 1, win = \<lparr>buckets = [\<lparr>Sum = 0, Count = 0\<rparr>], size_w = 1\<rparr>,
           interval = 0, offset = 0, ignoreCurrent = False, lastTime = 0\<rparr>
   \<and> (1::int) * 0 \<le> Since 7 0
   \<and> history \<lparr>k = k_const, stat = \<lparr>size_rw = 1, win = \<lparr>buckets = [\<lparr>Sum = 0, Count = 0\<rparr>], size_w = 1\<rparr>,
           interval = 0, offset = 0, ignoreCurrent = False, lastTime = 0\<rparr>\<rparr> 7
       = (\<lparr>k = k_const, stat = \<lparr>size_rw = 1, win = \<lparr>buckets = [\<lparr>Sum = 0, Count = 0\<rparr>], size_w = 1\<rparr>,
           interval = 0, offset = 0, ignoreCurrent = False, lastTime = 0\<rparr>\<rparr>, Panic IntegerDivideByZero)
   \<and> NewRollingWindow 1 (- 10) [] 0
     = Ok \<lparr>size_rw = 1, win = \<lparr>buckets = [\<lparr>Sum = 0, Count = 0\<rparr>], size_w = 1\<rparr>,
           interval = - 10, offset = 0, ignoreCurrent = False, lastTime = 0\<rparr>
   \<and> Add \<lparr>size_rw = 1, win = \<lparr>buckets = [\<lparr>Sum = 0, Count = 0\<rparr>], size_w = 1\<rparr>,
           interval = - 10, offset = 0, ignoreCurrent = False, lastTime = 0\<rparr> 1 0 0
     = (\<lparr>size_rw = 1, win = \<lparr>buckets = [\<lparr>Sum = 1, Count = 1\<rparr>], size_w = 1\<rparr>,
           interval = - 10, offset = 0, ignoreCurrent = False, lastTime = 0\<rparr>, Ok ())
   \<and> (1::int) * (- 10) \<le> Since 0 0
   \<and> history \<lparr>k = k_const, stat = \<lparr>size_rw = 1, win = \<lparr>buckets = [\<lparr>Sum = 1, Count = 1\<rparr>], size_w = 1\<rparr>,
           interval = - 10, offset = 0, ignoreCurrent = False, lastTime = 0\<rparr>\<rparr> 0
       = (\<lparr>k = k_const, stat = \<lparr>size_rw = 1, win = \<lparr>buckets = [\<lparr>Sum = 1, Count = 1\<rparr>], size_w = 1\<rparr>,
           interval = - 10, offset = 0, ignoreCurrent = False, lastTime = 0\<rparr>\<rparr>, Ok (1, 1))"
  by (simp add: NewRollingWindow_def newWindow_def Now_def Since_def history_def Reduce_def span_def
      go_quo_def go_rem_def Add_def updateOffset_def add_w_def add_b_def bucket_index_def reduce_def
      reduce_from.simps history_fn_def int64_of_float64_def smod_mod_positive)

text \<open>
  Claim C9 as stated, for every callback, fails. \<open>Reduce\<close> hands the callback a pointer to
  the bucket of the window. With the callback \<open>drain\<close>, in a window of one bucket that holds
  sum 1 and count 2, a first \<open>Reduce\<close> returns the total 2 and leaves the bucket reset; a
  second \<open>Reduce\<close> at the same clock reading, with no \<open>Add\<close> between the two, returns 0.
\<close>

theorem readers_leave_state_counterexample:
  "Reduce \<lparr>size_rw = 1, win = \<lparr>buckets = [\<lparr>Sum = 1, Count = 2\<rparr>], size_w = 1\<rparr>,
           interval = 10, offset = 0, ignoreCurrent = False, lastTime = 0\<rparr> 0 drain 0
     = (\<lparr>size_rw = 1, win = \<lparr>buckets = [\<lparr>Sum = 0, Count = 0\<rparr>], size_w = 1\<rparr>,
           interval = 10, offset = 0, ignoreCurrent = False, lastTime = 0\<rparr>, Ok 2)
   \<and> \<lparr>size_rw = 1, win = \<lparr>buckets = [\<lparr>Sum = 0, Count = 0\<rparr>], size_w = 1\<rparr>,
           interval = 10, offset = 0, ignoreCurrent = False, lastTime = 0\<rparr>
     \<noteq> \<lparr>size_rw = 1, win = \<lparr>buckets = [\<lparr>Sum = 1, Count = 2\<rparr>], size_w = 1\<rparr>,
           interval = 10, offset = 0, ignoreCurrent = False, lastTime = 0\<rparr>
   \<and> Reduce \<lparr>size_rw = 1, win = \<lparr>buckets = [\<lparr>Sum = 0, Count = 0\<rparr>], size_w = 1\<rparr>,
           interval = 10, offset = 0, ignoreCurrent = False, lastTime = 0\<rparr> 0 drain 0
     = (\<lparr>size_rw = 1, win = \<lparr>buckets = [\<lparr>Sum = 0, Count = 0\<rparr>], size_w = 1\<rparr>,
           interval = 10, offset = 0, ignoreCurrent = False, lastTime = 0\<rparr>, Ok 0)"
  by (simp add: Reduce_def span_def go_quo_def go_rem_def Since_def reduce_def reduce_from.simps
      bucket_index_def drain_def reset_def smod_mod_positive)

text \<open>
  Claim C9. \<open>Reduce\<close> with a callback that does not write to its bucket, \<open>history\<close> and
  \<open>accept\<close> return the state they were given, also when they panic; \<open>Reduce\<close> repeated
  any number of times at one clock reading leaves the window as it was and returns the
  same result each time. When \<open>accept\<close> rejects, \<open>doReq\<close> returns the breaker as it was:
  the rejection is not recorded, and \<open>history\<close> returns afterwards what it returned before.
\<close>

theorem readers_leave_state:
  "((\<forall>bk s. fst (fn bk s) = bk) \<longrightarrow>
       fst (Reduce rw reading fn s) = rw
       \<and> ((\<lambda>w. fst (Reduce w reading fn s)) ^^ n) rw = rw
       \<and> Reduce (((\<lambda>w. fst (Reduce w reading fn s)) ^^ n) rw) reading fn s = Reduce rw reading fn s)
   \<and> fst (history b reading) = b
   \<and> fst (accept b reading TrueOnProba) = b
   \<and> (snd (accept b reading TrueOnProba) = Ok (Some err) \<longrightarrow>
        fst (doReq b req fallback acceptable TrueOnProba reading at_mark at_recover) = b
        \<and> history (fst (doReq b req fallback acceptable TrueOnProba reading at_mark at_recover)) reading'
            = history b reading')"
proof (intro conjI impI)
  assume ro: "\<forall>bk s. fst (fn bk s) = bk"
  show 1: "fst (Reduce rw reading fn s) = rw"
    by (rule Reduce_frame [OF ro])
  have "fst (Reduce w reading fn s) = w" for w
    by (rule Reduce_frame [OF ro])
  then show 2: "((\<lambda>w. fst (Reduce w reading fn s)) ^^ n) rw = rw"
    by (induction n) simp_all
  then show "Reduce (((\<lambda>w. fst (Reduce w reading fn s)) ^^ n) rw) reading fn s = Reduce rw reading fn s"
    by simp
next
  show "fst (history b reading) = b" by (rule history_frame)
  show "fst (accept b reading TrueOnProba) = b" by (rule accept_frame)
next
  assume rej: "snd (accept b reading TrueOnProba) = Ok (Some err)"
  with accept_frame [of b reading TrueOnProba]
  have acc: "accept b reading TrueOnProba = (b, Ok (Some err))"
    by (cases "accept b reading TrueOnProba") simp
  show d: "fst (doReq b req fallback acceptable TrueOnProba reading at_mark at_recover) = b"
    by (cases fallback) (simp_all add: doReq_def acc)
  show "history (fst (doReq b req fallback acceptable TrueOnProba reading at_mark at_recover)) reading'
            = history b reading'"
    by (simp add: d)
qed

theorem readers_leave_state_witness:
  "fst (Reduce \<lparr>size_rw = 1, win = \<lparr>buckets = [\<lparr>Sum = 0, Count = 100\<rparr>], size_w = 1\<rparr>,
           interval = 10, offset = 0, ignoreCurrent = False, lastTime = 0\<rparr> 0 history_fn (0, 0))
     = \<lparr>size_rw = 1, win = \<lparr>buckets = [\<lparr>Sum = 0, Count = 100\<rparr>], size_w = 1\<rparr>,
           interval = 10, offset = 0, ignoreCurrent = False, lastTime = 0\<rparr>
   \<and> snd (accept \<lparr>k = k_const, stat = \<lparr>size_rw = 1, win = \<lparr>buckets = [\<lparr>Sum = 0, Count = 100\<rparr>], size_w = 1\<rparr>,
           interval = 10, offset = 0, ignoreCurrent = False, lastTime = 0\<rparr>\<rparr> 0 (\<lambda>p. True))
       = Ok (Some ErrServiceUnavailable)
   \<and> fst (doReq \<lparr>k = k_const, stat = \<lparr>size_rw = 1, win = \<lparr>buckets = [\<lparr>Sum = 0, Count = 100\<rparr>], size_w = 1\<rparr>,
           interval = 10, offset = 0, ignoreCurrent = False, lastTime = 0\<rparr>\<rparr>
         (Returns None) None (\<lambda>e. e = None) (\<lambda>p. True) 0 (0, 0) (0, 0))
     = \<lparr>k = k_const, stat = \<lparr>size_rw = 1, win = \<lparr>buckets = [\<lparr>Sum = 0, Count = 100\<rparr>], size_w = 1\<rparr>,
           interval = 10, offset = 0, ignoreCurrent = False, lastTime = 0\<rparr>\<rparr>"
proof -
  let ?rw = "\<lparr>size_rw = 1, win = \<lparr>buckets = [\<lparr>Sum = 0, Count = 100\<rparr>], size_w = 1\<rparr>,
           interval = 10, offset = 0, ignoreCurrent = False, lastTime = 0\<rparr>"
  let ?b = "\<lparr>k = k_const, stat = ?rw\<rparr>"
  have ro: "\<forall>bk s. fst (history_fn bk s) = bk" by (rule history_fn_readonly)
  have h: "history ?b 0 = (?b, Ok (0, 100))"
    by (simp add: history_def Reduce_def span_def go_quo_def go_rem_def Since_def reduce_def
        reduce_from.simps bucket_index_def history_fn_def int64_of_float64_def smod_mod_positive)
  have rej: "snd (accept ?b 0 (\<lambda>p. True)) = Ok (Some ErrServiceUnavailable)"
    unfolding accept_def h by (simp add: dropRatio_def protection_def k_const_def)
  from readers_leave_state [of history_fn ?rw 0 "(0, 0)" 1 ?b "\<lambda>p. True" ErrServiceUnavailable
      "Returns None" None "\<lambda>e. e = None" "(0, 0)" "(0, 0)" 0] ro rej
  show ?thesis by simp
qed

lemma mark_after:
  assumes inv: "breaker_inv b" and v: "v = 0 \<or> v = 1"
  shows "snd (Add (stat b) v reading1 reading2) = Ok ()
    \<and> breaker_inv (b\<lparr>stat := fst (Add (stat b) v reading1 reading2)\<rparr>)
    \<and> (\<forall>reading3. span (fst (Add (stat b) v reading1 reading2)) reading3 = Ok 0 \<longrightarrow>
          (\<exists>accepts total'. history b reading1 = (b, Ok (accepts, total'))
            \<and> history (b\<lparr>stat := fst (Add (stat b) v reading1 reading2)\<rparr>) reading3
                = (b\<lparr>stat := fst (Add (stat b) v reading1 reading2)\<rparr>,
                   Ok (accepts + int64_of_float64 v, total' + 1))))"
proof -
  obtain st r where a: "Add (stat b) v reading1 reading2 = (st, r)"
    by (cases "Add (stat b) v reading1 reading2")
  have vv: "0 \<le> v" using v by auto
  from Add_breaker_inv [OF inv vv a] have "breaker_inv (b\<lparr>stat := st\<rparr>)" "r = Ok ()"
    by simp_all
  moreover have "\<exists>accepts total'. history b reading1 = (b, Ok (accepts, total'))
            \<and> history (b\<lparr>stat := st\<rparr>) reading3
                = (b\<lparr>stat := st\<rparr>, Ok (accepts + int64_of_float64 v, total' + 1))"
    if "span st reading3 = Ok 0" for reading3
    by (rule history_after_Add [OF inv v a that])
  ultimately show ?thesis by (simp add: a)
qed

lemma doReq_body_calls:
  "CalledFallback \<notin> set (fst (snd (doReq_body b req acceptable at_mark)))"
  by (cases req) (auto simp: doReq_body_def split: prod.splits res.splits)

text \<open>
  When the request panics with a value that is not nil: in a reachable breaker, after
  \<open>accept\<close> has admitted the call, \<open>doReq\<close> panics with the same value; it has called the
  request and neither \<open>acceptable\<close> nor the fallback, and the state it leaves is the state
  after one \<open>markFailure\<close>, that is one \<open>Add\<close> of 0, which returns: a \<open>history\<close> in the same
  bucket interval returns the accepts unchanged and the total plus one.
\<close>

lemma doReq_panic_marked:
  assumes "reachable b" and "accept b at_accept TrueOnProba = (b0, Ok None)" and "e \<noteq> NilValue"
  shows "doReq b (Panics e) fallback acceptable TrueOnProba at_accept at_mark at_recover
           = (b\<lparr>stat := fst (Add (stat b) 0 (fst at_recover) (snd at_recover))\<rparr>, [CalledReq], Panic e)
    \<and> markFailure b (fst at_recover) (snd at_recover)
           = (b\<lparr>stat := fst (Add (stat b) 0 (fst at_recover) (snd at_recover))\<rparr>, Ok ())
    \<and> (\<forall>reading3. span (fst (Add (stat b) 0 (fst at_recover) (snd at_recover))) reading3 = Ok 0 \<longrightarrow>
          (\<exists>accepts total'. history b (fst at_recover) = (b, Ok (accepts, total'))
            \<and> history (b\<lparr>stat := fst (Add (stat b) 0 (fst at_recover) (snd at_recover))\<rparr>) reading3
                = (b\<lparr>stat := fst (Add (stat b) 0 (fst at_recover) (snd at_recover))\<rparr>,
                   Ok (accepts, total' + 1))))"
proof -
  from reachable_breaker_inv [OF assms(1)] have inv: "breaker_inv b" .
  from accept_frame [of b at_accept TrueOnProba] assms(2)
  have acc: "accept b at_accept TrueOnProba = (b, Ok None)" by simp
  note m = mark_after [OF inv, of 0 "fst at_recover" "snd at_recover"]
  have mf: "markFailure b (fst at_recover) (snd at_recover)
      = (b\<lparr>stat := fst (Add (stat b) 0 (fst at_recover) (snd at_recover))\<rparr>, Ok ())"
    using m by (simp add: markFailure_def split_beta)
  have "doReq b (Panics e) fallback acceptable TrueOnProba at_accept at_mark at_recover
           = (b\<lparr>stat := fst (Add (stat b) 0 (fst at_recover) (snd at_recover))\<rparr>, [CalledReq], Panic e)"
    using assms(3) by (simp add: doReq_def acc doReq_body_def mf)
  with mf m show ?thesis by (simp add: int64_of_float64_def)
qed

text \<open>
  When the request panics with nil, \<open>recover()\<close> returns nil and the test \<open>e != nil\<close> of
  the deferred function fails: whatever the breaker, after \<open>accept\<close> has admitted the call
  \<open>doReq\<close> returns the nil error and leaves the breaker as it was.
\<close>

lemma doReq_nil_panic:
  assumes "accept b at_accept TrueOnProba = (b0, Ok None)"
  shows "doReq b (Panics NilValue) fallback acceptable TrueOnProba at_accept at_mark at_recover
           = (b, [CalledReq], Ok None)"
proof -
  from accept_frame [of b at_accept TrueOnProba] assms
  have acc: "accept b at_accept TrueOnProba = (b, Ok None)" by simp
  show ?thesis by (simp add: doReq_def acc doReq_body_def)
qed

text \<open>
  Claim C7. The claim asks that, for every request that panics after it was admitted,
  \<open>doReq\<close> records one failure and panics with the same value. The code does not for the
  request that panics with nil: in the breaker that \<open>newGoogleBreaker\<close> returns, at a clock
  reading where \<open>accept\<close> admits, \<open>doReq\<close> returns the nil error where the claim asks for a
  panic, and it leaves the breaker as it was, so that \<open>history\<close> still returns \<open>(0, 0)\<close>
  where the claim asks for one more attempt. With the value \<open>Fault ''boom''\<close> in place of nil,
  the same call panics with that value after one \<open>Add\<close> of 0, and \<open>history\<close> returns
  \<open>(0, 1)\<close>.
\<close>

theorem doReq_nil_panic_swallowed:
  "reachable fresh_breaker
   \<and> accept fresh_breaker 10000000000 (\<lambda>p. True) = (fresh_breaker, Ok None)
   \<and> doReq fresh_breaker (Panics NilValue) None (\<lambda>e. e = None) (\<lambda>p. True)
        10000000000 (10000000000, 10000000000) (10000000000, 10000000000)
      = (fresh_breaker, [CalledReq], Ok None)
   \<and> history fresh_breaker 10000000000 = (fresh_breaker, Ok (0, 0))
   \<and> doReq fresh_breaker (Panics (Fault ''boom'')) None (\<lambda>e. e = None) (\<lambda>p. True)
        10000000000 (10000000000, 10000000000) (10000000000, 10000000000)
      = (fresh_breaker\<lparr>stat := fst (Add (stat fresh_breaker) 0 10000000000 10000000000)\<rparr>,
         [CalledReq], Panic (Fault ''boom''))
   \<and> history (fresh_breaker\<lparr>stat := fst (Add (stat fresh_breaker) 0 10000000000 10000000000)\<rparr>)
        10000000000
      = (fresh_breaker\<lparr>stat := fst (Add (stat fresh_breaker) 0 10000000000 10000000000)\<rparr>, Ok (0, 1))"
  using doReq_panic_marked [OF reachable_fresh_breaker accept_fresh_breaker [of "\<lambda>p. True"],
      where e = "Fault ''boom''" and fallback = None and acceptable = "\<lambda>e. e = None"
        and at_mark = "(10000000000, 10000000000)" and at_recover = "(10000000000, 10000000000)"]
    doReq_nil_panic [OF accept_fresh_breaker [of "\<lambda>p. True"],
      where fallback = None and acceptable = "\<lambda>e. e = None"
        and at_mark = "(10000000000, 10000000000)" and at_recover = "(10000000000, 10000000000)"]
    span_fresh_breaker_after_Add [of 0]
  by (simp add: reachable_fresh_breaker accept_fresh_breaker history_fresh_breaker)

text \<open>
  Claim C8. In a reachable breaker, when \<open>accept\<close> has admitted the call and the request
  returns \<open>err\<close> (nil or not): if \<open>acceptable err\<close> holds, \<open>doReq\<close> returns \<open>err\<close> and leaves the
  state after one \<open>markSuccess\<close>, one \<open>Add\<close> of 1, so that a \<open>history\<close> in the same bucket
  interval returns one more accept and one more attempt; otherwise it returns \<open>err\<close> and
  leaves the state after one \<open>markFailure\<close>, one more attempt and no more accept. In both
  cases it has called the request and \<open>acceptable\<close> and not the fallback. Whatever the
  request does, the fallback is called only when \<open>accept\<close> has rejected the call, and its
  result is then the result of \<open>doReq\<close>.
\<close>

theorem doReq_marks_outcome:
  "(reachable b \<and> accept b at_accept TrueOnProba = (b, Ok None) \<and> acceptable err \<longrightarrow>
      doReq b (Returns err) fallback acceptable TrueOnProba at_accept at_mark at_recover
         = (b\<lparr>stat := fst (Add (stat b) 1 (fst at_mark) (snd at_mark))\<rparr>,
            [CalledReq, CalledAcceptable], Ok err)
      \<and> markSuccess b (fst at_mark) (snd at_mark)
         = (b\<lparr>stat := fst (Add (stat b) 1 (fst at_mark) (snd at_mark))\<rparr>, Ok ())
      \<and> (\<forall>reading3. span (fst (Add (stat b) 1 (fst at_mark) (snd at_mark))) reading3 = Ok 0 \<longrightarrow>
            (\<exists>accepts total'. history b (fst at_mark) = (b, Ok (accepts, total'))
              \<and> history (b\<lparr>stat := fst (Add (stat b) 1 (fst at_mark) (snd at_mark))\<rparr>) reading3
                  = (b\<lparr>stat := fst (Add (stat b) 1 (fst at_mark) (snd at_mark))\<rparr>,
                     Ok (accepts + 1, total' + 1)))))
    \<and> (reachable b \<and> accept b at_accept TrueOnProba = (b, Ok None) \<and> \<not> acceptable err \<longrightarrow>
      doReq b (Returns err) fallback acceptable TrueOnProba at_accept at_mark at_recover
         = (b\<lparr>stat := fst (Add (stat b) 0 (fst at_mark) (snd at_mark))\<rparr>,
            [CalledReq, CalledAcceptable], Ok err)
      \<and> markFailure b (fst at_mark) (snd at_mark)
         = (b\<lparr>stat := fst (Add (stat b) 0 (fst at_mark) (snd at_mark))\<rparr>, Ok ())
      \<and> (\<forall>reading3. span (fst (Add (stat b) 0 (fst at_mark) (snd at_mark))) reading3 = Ok 0 \<longrightarrow>
            (\<exists>accepts total'. history b (fst at_mark) = (b, Ok (accepts, total'))
              \<and> history (b\<lparr>stat := fst (Add (stat b) 0 (fst at_mark) (snd at_mark))\<rparr>) reading3
                  = (b\<lparr>stat := fst (Add (stat b) 0 (fst at_mark) (snd at_mark))\<rparr>,
                     Ok (accepts, total' + 1)))))
    \<and> (CalledFallback \<in> set (fst (snd
          (doReq b req fallback acceptable TrueOnProba at_accept at_mark at_recover))) \<longrightarrow>
        (\<exists>rejection f. accept b at_accept TrueOnProba = (b, Ok (Some rejection))
           \<and> fallback = Some f
           \<and> doReq b req fallback acceptable TrueOnProba at_accept at_mark at_recover
               = (b, [CalledFallback], Ok (f rejection))))"
proof (intro conjI impI)
  have ms: "markSuccess b (fst at_mark) (snd at_mark)
      = (b\<lparr>stat := fst (Add (stat b) 1 (fst at_mark) (snd at_mark))\<rparr>, Ok ())"
    and m1: "\<forall>reading3. span (fst (Add (stat b) 1 (fst at_mark) (snd at_mark))) reading3 = Ok 0 \<longrightarrow>
            (\<exists>accepts total'. history b (fst at_mark) = (b, Ok (accepts, total'))
              \<and> history (b\<lparr>stat := fst (Add (stat b) 1 (fst at_mark) (snd at_mark))\<rparr>) reading3
                  = (b\<lparr>stat := fst (Add (stat b) 1 (fst at_mark) (snd at_mark))\<rparr>,
                     Ok (accepts + 1, total' + 1)))"
    and mf: "markFailure b (fst at_mark) (snd at_mark)
      = (b\<lparr>stat := fst (Add (stat b) 0 (fst at_mark) (snd at_mark))\<rparr>, Ok ())"
    and m0: "\<forall>reading3. span (fst (Add (stat b) 0 (fst at_mark) (snd at_mark))) reading3 = Ok 0 \<longrightarrow>
            (\<exists>accepts total'. history b (fst at_mark) = (b, Ok (accepts, total'))
              \<and> history (b\<lparr>stat := fst (Add (stat b) 0 (fst at_mark) (snd at_mark))\<rparr>) reading3
                  = (b\<lparr>stat := fst (Add (stat b) 0 (fst at_mark) (snd at_mark))\<rparr>,
                     Ok (accepts, total' + 1)))"
    if "reachable b"
  proof -
    from reachable_breaker_inv [OF that] have inv: "breaker_inv b" .
    note n1 = mark_after [OF inv, of 1 "fst at_mark" "snd at_mark"]
    note n0 = mark_after [OF inv, of 0 "fst at_mark" "snd at_mark"]
    show "markSuccess b (fst at_mark) (snd at_mark)
      = (b\<lparr>stat := fst (Add (stat b) 1 (fst at_mark) (snd at_mark))\<rparr>, Ok ())"
      using n1 by (simp add: markSuccess_def split_beta)
    show "markFailure b (fst at_mark) (snd at_mark)
      = (b\<lparr>stat := fst (Add (stat b) 0 (fst at_mark) (snd at_mark))\<rparr>, Ok ())"
      using n0 by (simp add: markFailure_def split_beta)
    show "\<forall>reading3. span (fst (Add (stat b) 1 (fst at_mark) (snd at_mark))) reading3 = Ok 0 \<longrightarrow>
            (\<exists>accepts total'. history b (fst at_mark) = (b, Ok (accepts, total'))
              \<and> history (b\<lparr>stat := fst (Add (stat b) 1 (fst at_mark) (snd at_mark))\<rparr>) reading3
                  = (b\<lparr>stat := fst (Add (stat b) 1 (fst at_mark) (snd at_mark))\<rparr>,
                     Ok (accepts + 1, total' + 1)))"
      using n1 by (simp add: int64_of_float64_def)
    show "\<forall>reading3. span (fst (Add (stat b) 0 (fst at_mark) (snd at_mark))) reading3 = Ok 0 \<longrightarrow>
            (\<exists>accepts total'. history b (fst at_mark) = (b, Ok (accepts, total'))
              \<and> history (b\<lparr>stat := fst (Add (stat b) 0 (fst at_mark) (snd at_mark))\<rparr>) reading3
                  = (b\<lparr>stat := fst (Add (stat b) 0 (fst at_mark) (snd at_mark))\<rparr>,
                     Ok (accepts, total' + 1)))"
      using n0 by (simp add: int64_of_float64_def)
  qed
  {
    assume a: "reachable b \<and> accept b at_accept TrueOnProba = (b, Ok None) \<and> acceptable err"
    then have re: "reachable b" by simp
    from a show "doReq b (Returns err) fallback acceptable TrueOnProba at_accept at_mark at_recover
         = (b\<lparr>stat := fst (Add (stat b) 1 (fst at_mark) (snd at_mark))\<rparr>,
            [CalledReq, CalledAcceptable], Ok err)"
      by (simp add: doReq_def doReq_body_def ms [OF re])
    show "markSuccess b (fst at_mark) (snd at_mark)
         = (b\<lparr>stat := fst (Add (stat b) 1 (fst at_mark) (snd at_mark))\<rparr>, Ok ())"
      by (rule ms [OF re])
    show "\<forall>reading3. span (fst (Add (stat b) 1 (fst at_mark) (snd at_mark))) reading3 = Ok 0 \<longrightarrow>
            (\<exists>accepts total'. history b (fst at_mark) = (b, Ok (accepts, total'))
              \<and> history (b\<lparr>stat := fst (Add (stat b) 1 (fst at_mark) (snd at_mark))\<rparr>) reading3
                  = (b\<lparr>stat := fst (Add (stat b) 1 (fst at_mark) (snd at_mark))\<rparr>,
                     Ok (accepts + 1, total' + 1)))"
      by (rule m1 [OF re])
  }
  {
    assume a: "reachable b \<and> accept b at_accept TrueOnProba = (b, Ok None) \<and> \<not> acceptable err"
    then have re: "reachable b" by simp
    from a show "doReq b (Returns err) fallback acceptable TrueOnProba at_accept at_mark at_recover
         = (b\<lparr>stat := fst (Add (stat b) 0 (fst at_mark) (snd at_mark))\<rparr>,
            [CalledReq, CalledAcceptable], Ok err)"
      by (simp add: doReq_def doReq_body_def mf [OF re])
    show "markFailure b (fst at_mark) (snd at_mark)
         = (b\<lparr>stat := fst (Add (stat b) 0 (fst at_mark) (snd at_mark))\<rparr>, Ok ())"
      by (rule mf [OF re])
    show "\<forall>reading3. span (fst (Add (stat b) 0 (fst at_mark) (snd at_mark))) reading3 = Ok 0 \<longrightarrow>
            (\<exists>accepts total'. history b (fst at_mark) = (b, Ok (accepts, total'))
              \<and> history (b\<lparr>stat := fst (Add (stat b) 0 (fst at_mark) (snd at_mark))\<rparr>) reading3
                  = (b\<lparr>stat := fst (Add (stat b) 0 (fst at_mark) (snd at_mark))\<rparr>,
                     Ok (accepts, total' + 1)))"
      by (rule m0 [OF re])
  }
  {
    assume c: "CalledFallback \<in> set (fst (snd
          (doReq b req fallback acceptable TrueOnProba at_accept at_mark at_recover)))"
    obtain ra where acc: "accept b at_accept TrueOnProba = (b, ra)"
      using accept_frame [of b at_accept TrueOnProba]
      by (cases "accept b at_accept TrueOnProba") simp
    show "\<exists>rejection f. accept b at_accept TrueOnProba = (b, Ok (Some rejection))
           \<and> fallback = Some f
           \<and> doReq b req fallback acceptable TrueOnProba at_accept at_mark at_recover
               = (b, [CalledFallback], Ok (f rejection))"
    proof (cases ra)
      case (Panic p)
      with c acc show ?thesis by (simp add: doReq_def)
    next
      case (Ok eo)
      show ?thesis
      proof (cases eo)
        case (Some rejection)
        with c acc Ok show ?thesis by (cases fallback) (simp_all add: doReq_def)
      next
        case None
        obtain b1 calls1 r1 where body: "doReq_body b req acceptable at_mark = (b1, calls1, r1)"
          by (cases "doReq_body b req acceptable at_mark") auto
        with doReq_body_calls [of b req acceptable at_mark]
        have nc: "CalledFallback \<notin> set calls1" by simp
        have "fst (snd (doReq b req fallback acceptable TrueOnProba at_accept at_mark at_recover))
            = calls1"
          by (cases r1) (simp_all add: doReq_def acc Ok None body split: prod.splits res.splits)
        with c nc show ?thesis by simp
      qed
    qed
  }
qed

theorem doReq_marks_outcome_witness:
  "reachable fresh_breaker
   \<and> accept fresh_breaker 10000000000 (\<lambda>p. True) = (fresh_breaker, Ok None)
   \<and> doReq fresh_breaker (Returns None) None (\<lambda>e. e = None) (\<lambda>p. True)
        10000000000 (10000000000, 10000000000) (10000000000, 10000000000)
      = (fresh_breaker\<lparr>stat := fst (Add (stat fresh_breaker) 1 10000000000 10000000000)\<rparr>,
         [CalledReq, CalledAcceptable], Ok None)
   \<and> history (fresh_breaker\<lparr>stat := fst (Add (stat fresh_breaker) 1 10000000000 10000000000)\<rparr>)
        10000000000
      = (fresh_breaker\<lparr>stat := fst (Add (stat fresh_breaker) 1 10000000000 10000000000)\<rparr>, Ok (1, 1))
   \<and> doReq fresh_breaker (Returns (Some (OtherError ''timeout''))) None (\<lambda>e. e = None) (\<lambda>p. True)
        10000000000 (10000000000, 10000000000) (10000000000, 10000000000)
      = (fresh_breaker\<lparr>stat := fst (Add (stat fresh_breaker) 0 10000000000 10000000000)\<rparr>,
         [CalledReq, CalledAcceptable], Ok (Some (OtherError ''timeout'')))
   \<and> history (fresh_breaker\<lparr>stat := fst (Add (stat fresh_breaker) 0 10000000000 10000000000)\<rparr>)
        10000000000
      = (fresh_breaker\<lparr>stat := fst (Add (stat fresh_breaker) 0 10000000000 10000000000)\<rparr>, Ok (0, 1))
   \<and> doReq \<lparr>k = k_const, stat = \<lparr>size_rw = 1, win = \<lparr>buckets = [\<lparr>Sum = 0, Count = 100\<rparr>], size_w = 1\<rparr>,
           interval = 10, offset = 0, ignoreCurrent = False, lastTime = 0\<rparr>\<rparr>
        (Returns None) (Some (\<lambda>e. Some (OtherError ''fallback''))) (\<lambda>e. e = None) (\<lambda>p. True) 0 (0, 0) (0, 0)
      = (\<lparr>k = k_const, stat = \<lparr>size_rw = 1, win = \<lparr>buckets = [\<lparr>Sum = 0, Count = 100\<rparr>], size_w = 1\<rparr>,
           interval = 10, offset = 0, ignoreCurrent = False, lastTime = 0\<rparr>\<rparr>,
         [CalledFallback], Ok (Some (OtherError ''fallback'')))"
proof -
  let ?b = "\<lparr>k = k_const, stat = \<lparr>size_rw = 1, win = \<lparr>buckets = [\<lparr>Sum = 0, Count = 100\<rparr>], size_w = 1\<rparr>,
           interval = 10, offset = 0, ignoreCurrent = False, lastTime = 0\<rparr>\<rparr>"
  let ?T = "10000000000 :: int"
  have h: "history ?b 0 = (?b, Ok (0, 100))"
    by (simp add: history_def Reduce_def span_def go_quo_def go_rem_def Since_def reduce_def
        reduce_from.simps bucket_index_def history_fn_def int64_of_float64_def smod_mod_positive)
  have rej: "accept ?b 0 (\<lambda>p. True) = (?b, Ok (Some ErrServiceUnavailable))"
    unfolding accept_def h by (simp add: dropRatio_def protection_def k_const_def)
  have called: "CalledFallback \<in> set (fst (snd (doReq ?b (Returns None)
      (Some (\<lambda>e. Some (OtherError ''fallback''))) (\<lambda>e. e = None) (\<lambda>p. True) 0 (0, 0) (0, 0))))"
    by (simp add: doReq_def rej)
  note t1 = doReq_marks_outcome [where b = fresh_breaker
      and at_accept = ?T and TrueOnProba = "\<lambda>p. True" and acceptable = "\<lambda>e. e = None"
      and err = None and fallback = None and at_mark = "(?T, ?T)" and at_recover = "(?T, ?T)"
      and req = "Returns None"]
  note t2 = doReq_marks_outcome [where b = fresh_breaker
      and at_accept = ?T and TrueOnProba = "\<lambda>p. True" and acceptable = "\<lambda>e. e = None"
      and err = "Some (OtherError ''timeout'')" and fallback = None and at_mark = "(?T, ?T)"
      and at_recover = "(?T, ?T)" and req = "Returns None"]
  note t3 = doReq_marks_outcome [where b = ?b
      and at_accept = 0 and TrueOnProba = "\<lambda>p. True" and acceptable = "\<lambda>e. e = None"
      and err = None and fallback = "Some (\<lambda>e. Some (OtherError ''fallback''))"
      and at_mark = "(0, 0)" and at_recover = "(0, 0)" and req = "Returns None"]
  from t3 called have "doReq ?b (Returns None)
      (Some (\<lambda>e. Some (OtherError ''fallback''))) (\<lambda>e. e = None) (\<lambda>p. True) 0 (0, 0) (0, 0)
      = (?b, [CalledFallback], Ok (Some (OtherError ''fallback'')))"
    by auto
  with t1 t2 span_fresh_breaker_after_Add [of 0] span_fresh_breaker_after_Add [of 1]
  show ?thesis
    by (simp add: reachable_fresh_breaker accept_fresh_breaker history_fresh_breaker)
qed

section \<open>The drop ratio\<close>

lemma history_k: "history b reading = (b1, r) \<Longrightarrow> k b1 = k b"
  by (auto simp: history_def split: prod.splits)

lemma dropRatio_formula:
  "dropRatio (3 / 2) accepts total'
     = max 0 ((real_of_int total' - 5 - 3 / 2 * real_of_int accepts) / (real_of_int total' + 1))"
  by (simp add: dropRatio_def protection_def)

text \<open>
  Claim C1. In a breaker whose \<open>k\<close> is the constant 1.5, when \<open>history\<close> returns the
  non-negative pair \<open>(accepts, total)\<close>, the drop ratio that \<open>accept\<close> computes is
  \<open>max 0 ((total - 5 - 1.5 * accepts) / (total + 1))\<close>; \<open>accept\<close> returns nil without asking
  the probability gate when the ratio is at most 0, and otherwise what the gate decides.
  For 50 accepts out of 100 the ratio is \<open>20 / 101\<close>.
\<close>

theorem accept_dropRatio:
  assumes "history b reading = (b1, Ok (accepts, total'))" and "k b = k_const"
    and "0 \<le> accepts" and "0 \<le> total'"
  shows "k_const = 3 / 2 \<and> protection = 5
    \<and> dropRatio (k b1) accepts total'
         = max 0 ((real_of_int total' - 5 - 3 / 2 * real_of_int accepts) / (real_of_int total' + 1))
    \<and> accept b reading TrueOnProba
         = (b1, Ok (if dropRatio (k b1) accepts total' \<le> 0 then None
                    else if TrueOnProba (dropRatio (k b1) accepts total') then Some ErrServiceUnavailable
                    else None))
    \<and> (max 0 ((real_of_int total' - 5 - 3 / 2 * real_of_int accepts) / (real_of_int total' + 1)) \<le> 0
         \<longrightarrow> accept b reading TrueOnProba = (b1, Ok None))
    \<and> dropRatio k_const 50 100 = 20 / 101"
proof -
  have kc: "k_const = 3 / 2" by (simp add: k_const_def)
  have kb: "k b1 = 3 / 2" using history_k [OF assms(1)] assms(2) kc by simp
  have acc: "accept b reading TrueOnProba
         = (b1, Ok (if dropRatio (k b1) accepts total' \<le> 0 then None
                    else if TrueOnProba (dropRatio (k b1) accepts total') then Some ErrServiceUnavailable
                    else None))"
    by (simp add: accept_def assms(1))
  have ex: "dropRatio k_const 50 100 = 20 / 101"
    by (simp add: dropRatio_def protection_def k_const_def)
  show ?thesis
    unfolding acc kb dropRatio_formula using kc ex by (simp add: protection_def)
qed

theorem accept_dropRatio_witness:
  "accept \<lparr>k = 3 / 2, stat = \<lparr>size_rw = 1, win = \<lparr>buckets = [\<lparr>Sum = 2, Count = 3\<rparr>], size_w = 1\<rparr>,
      interval = 10, offset = 0, ignoreCurrent = False, lastTime = 0\<rparr>\<rparr> 0 (\<lambda>p. True)
   = (\<lparr>k = 3 / 2, stat = \<lparr>size_rw = 1, win = \<lparr>buckets = [\<lparr>Sum = 2, Count = 3\<rparr>], size_w = 1\<rparr>,
      interval = 10, offset = 0, ignoreCurrent = False, lastTime = 0\<rparr>\<rparr>, Ok None)"
proof -
  let ?b = "\<lparr>k = 3 / 2, stat = \<lparr>size_rw = 1, win = \<lparr>buckets = [\<lparr>Sum = 2, Count = 3\<rparr>], size_w = 1\<rparr>,
      interval = 10, offset = 0, ignoreCurrent = False, lastTime = 0\<rparr>\<rparr>"
  have h: "history ?b 0 = (?b, Ok (2, 3))"
    by (simp add: history_def Reduce_def span_def go_quo_def go_rem_def Since_def reduce_def
        reduce_from.simps bucket_index_def history_fn_def int64_of_float64_def
        smod_mod_positive)
  have kk: "k ?b = k_const" by (simp add: k_const_def)
  show ?thesis
    using accept_dropRatio [OF h kk, of "\<lambda>p. True"] by simp
qed

text \<open>
  Claim C5. With \<open>k = 1.5\<close>, for a fixed total at least 0 the drop ratio does not increase
  when the accepts increase, and for fixed accepts at least 0 it does not decrease when
  the total, at least 0, increases.
\<close>

theorem dropRatio_monotone:
  "(0 \<le> total' \<and> accepts \<le> accepts'
      \<longrightarrow> dropRatio k_const accepts' total' \<le> dropRatio k_const accepts total')
   \<and> (0 \<le> accepts \<and> 0 \<le> total' \<and> total' \<le> total''
      \<longrightarrow> dropRatio k_const accepts total' \<le> dropRatio k_const accepts total'')"
proof (intro conjI impI)
  assume a: "0 \<le> total' \<and> accepts \<le> accepts'"
  then have "real_of_int (total' - protection) - k_const * real_of_int accepts'
      \<le> real_of_int (total' - protection) - k_const * real_of_int accepts"
    by (simp add: k_const_def)
  moreover have "0 \<le> real_of_int (total' + 1)" using a by simp
  ultimately have "(real_of_int (total' - protection) - k_const * real_of_int accepts') / real_of_int (total' + 1)
      \<le> (real_of_int (total' - protection) - k_const * real_of_int accepts) / real_of_int (total' + 1)"
    by (rule divide_right_mono)
  then show "dropRatio k_const accepts' total' \<le> dropRatio k_const accepts total'"
    unfolding dropRatio_def Let_def by (rule max.mono [OF order_refl])
next
  assume a: "0 \<le> accepts \<and> 0 \<le> total' \<and> total' \<le> total''"
  define c where "c = real_of_int protection + 1 + k_const * real_of_int accepts"
  define x where "x = real_of_int total' + 1"
  define y where "y = real_of_int total'' + 1"
  have c: "0 \<le> c" using a by (simp add: c_def protection_def k_const_def)
  have xy: "0 < x" "x \<le> y" using a by (simp_all add: x_def y_def)
  have "c / y \<le> c / x"
    using xy c by (intro divide_left_mono) (auto intro: mult_pos_pos)
  then have "1 - c / x \<le> 1 - c / y" by simp
  moreover have "(real_of_int (total' - protection) - k_const * real_of_int accepts) / real_of_int (total' + 1)
      = 1 - c / x"
    using xy by (simp add: c_def x_def field_simps)
  moreover have "(real_of_int (total'' - protection) - k_const * real_of_int accepts) / real_of_int (total'' + 1)
      = 1 - c / y"
    using xy by (simp add: c_def y_def field_simps)
  ultimately have "(real_of_int (total' - protection) - k_const * real_of_int accepts) / real_of_int (total' + 1)
      \<le> (real_of_int (total'' - protection) - k_const * real_of_int accepts) / real_of_int (total'' + 1)"
    by simp
  then show "dropRatio k_const accepts total' \<le> dropRatio k_const accepts total''"
    unfolding dropRatio_def Let_def by (rule max.mono [OF order_refl])
qed

theorem dropRatio_monotone_witness:
  "((0::int) \<le> 100 \<and> (50::int) \<le> 60 \<and> dropRatio k_const 60 100 \<le> dropRatio k_const 50 100)
   \<and> ((0::int) \<le> 50 \<and> (0::int) \<le> 100 \<and> (100::int) \<le> 200
        \<and> dropRatio k_const 50 100 \<le> dropRatio k_const 50 200)"
  using dropRatio_monotone [of 100 50 60 200] by simp

section \<open>The bloom filter's offsets\<close>

lemma getLocations_loop_eq:
  assumes "bits f \<noteq> 0" "length locations = maps" "i \<le> maps"
  shows "getLocations_loop f Hash data i locations
    = Ok (take i locations @ map (\<lambda>j. Hash (data @ [of_nat j]) mod bits f) [i..<maps])"
  using assms
proof (induction f Hash data i locations rule: getLocations_loop.induct)
  case (1 f Hash data i locations)
  show ?case
  proof (cases "i < maps")
    case False
    with "1.prems" have "i = maps" by simp
    with "1.prems" show ?thesis
      by (subst getLocations_loop.simps) simp
  next
    case True
    let ?v = "Hash (data @ [of_nat i]) mod bits f"
    let ?locs = "locations[i := ?v]"
    have len: "length ?locs = maps" using "1.prems"(2) by simp
    have le: "i + 1 \<le> maps" using True by simp
    have tk: "take (i + 1) ?locs = take i locations @ [?v]"
      using True "1.prems"(2) by (simp add: take_Suc_conv_app_nth)
    have up: "[i..<maps] = i # [i + 1..<maps]"
      using True by (simp add: upt_conv_Cons)
    from "1.IH" [OF True refl "1.prems"(1) "1.prems"(1) len le]
    have "getLocations_loop f Hash data (i + 1) ?locs
      = Ok (take i locations @ map (\<lambda>j. Hash (data @ [of_nat j]) mod bits f) [i..<maps])"
      by (simp only: tk up) simp
    then show ?thesis
      by (subst getLocations_loop.simps) (simp add: True "1.prems"(1))
  qed
qed

lemma buildOffsetArgs_loop_ok:
  assumes "\<forall>l\<in>set offsets. l < bits_rbs r"
  shows "buildOffsetArgs_loop r offsets args = (args @ map FormatUint offsets, None)"
  using assms
  by (induction offsets arbitrary: args) (simp_all add: not_le [symmetric])

text \<open>
  Claim C10. For every filter with \<open>bits > 0\<close> and any data, \<open>getLocations\<close> returns
  exactly 14 offsets: the one at index \<open>i\<close> is the hash of the data followed by the byte
  \<open>i\<close>, reduced modulo \<open>bits\<close>, so each is below \<open>bits\<close>. In a filter whose bit set has the
  same \<open>bits\<close>, as in every filter made by \<open>New\<close>, \<open>buildOffsetArgs\<close> then formats all of
  them and returns no error, so that \<open>Add\<close> and \<open>Exists\<close> always reach the store: the
  only errors they return are the store's.
\<close>

theorem getLocations_in_range:
  assumes "bits f \<noteq> 0"
  shows "\<exists>locs. getLocations f Hash data = Ok locs
           \<and> locs = map (\<lambda>i. Hash (data @ [of_nat i]) mod bits f) [0..<14]
           \<and> length locs = 14
           \<and> (\<forall>l\<in>set locs. l < bits f)
           \<and> bits (New ky bts) = bts \<and> bits_rbs (bitSet (New ky bts)) = bts
           \<and> (bits_rbs (bitSet f) = bits f \<longrightarrow>
                buildOffsetArgs (bitSet f) locs = (map FormatUint locs, None)
                \<and> Add_filter f Hash eval data = Ok (set_rbs (bitSet f) eval locs)
                \<and> set_rbs (bitSet f) eval locs =
                    (case eval setScript [key (bitSet f)] (map FormatUint locs) of
                       (resp, Some err) \<Rightarrow> if err = RedisNil then None else Some err
                     | (resp, None) \<Rightarrow> None)
                \<and> Exists_filter f Hash eval data =
                    (case check (bitSet f) eval locs of
                       (isSet, Some err) \<Rightarrow> Ok (False, Some err)
                     | (isSet, None) \<Rightarrow> Ok (isSet, None))
                \<and> check (bitSet f) eval locs =
                    (case eval testScript [key (bitSet f)] (map FormatUint locs) of
                       (resp, Some err) \<Rightarrow> if err = RedisNil then (False, None) else (False, Some err)
                     | (resp, None) \<Rightarrow>
                         (case resp of Int64Reply exists \<Rightarrow> (exists = 1, None)
                          | OtherReply \<Rightarrow> (False, None))))"
proof -
  define locs where "locs = map (\<lambda>i. Hash (data @ [of_nat i]) mod bits f) [0..<14]"
  have l: "getLocations f Hash data = Ok locs"
    unfolding getLocations_def locs_def
    using getLocations_loop_eq [OF assms, of "replicate maps 0" 0 Hash data]
    by (simp add: maps_def)
  have len: "length locs = 14" by (simp add: locs_def)
  have r: "\<forall>l\<in>set locs. l < bits f"
    using assms by (auto simp: locs_def word_mod_less_divisor word_greater_zero_iff)
  have boa: "buildOffsetArgs (bitSet f) locs = (map FormatUint locs, None)"
    if "bits_rbs (bitSet f) = bits f"
    unfolding buildOffsetArgs_def using buildOffsetArgs_loop_ok [of locs "bitSet f" "[]"] r that
    by simp
  show ?thesis
    apply (rule exI [of _ locs])
    using l len r boa locs_def
    by (simp add: Add_filter_def Exists_filter_def set_rbs_def check_def New_def
        newRedisBitSet_def)
qed

theorem getLocations_in_range_witness:
  "bits (New ''k'' 1000) \<noteq> 0
   \<and> bits_rbs (bitSet (New ''k'' 1000)) = bits (New ''k'' 1000)
   \<and> getLocations (New ''k'' 1000) (\<lambda>d. 1234567 * (1 + ucast (last d))) [7]
       = Ok [567, 134, 701, 268, 835, 402, 969, 536, 103, 670, 237, 804, 371, 938]
   \<and> list_all (\<lambda>l. l < 1000) [567, 134, 701, 268, 835, 402, 969, 536, 103, 670, 237, 804, 371, 938 :: uint]
   \<and> buildOffsetArgs (bitSet (New ''k'' 1000))
         [567, 134, 701, 268, 835, 402, 969, 536, 103, 670, 237, 804, 371, 938]
       = (map FormatUint [567, 134, 701, 268, 835, 402, 969, 536, 103, 670, 237, 804, 371, 938], None)"
proof -
  have b: "bits (New ''k'' 1000) \<noteq> 0" "bits_rbs (bitSet (New ''k'' 1000)) = bits (New ''k'' 1000)"
    "bits (New ''k'' 1000) = 1000"
    by (simp_all add: New_def newRedisBitSet_def)
  have ev: "map (\<lambda>i. (1234567 * (1 + ucast (last ([7 :: 8 word] @ [of_nat i]))) :: uint) mod 1000) [0..<14]
      = [567, 134, 701, 268, 835, 402, 969, 536, 103, 670, 237, 804, 371, 938]"
    by code_simp
  from getLocations_in_range [OF b(1), of "\<lambda>d. 1234567 * (1 + ucast (last d))" "[7]" "''k''" 1000
      "\<lambda>s ks as. (OtherReply, None)"]
  show ?thesis unfolding b(3) ev using b by auto
qed

end
